theory Spec2Isabelle
  imports Complex_Main "HOL-Library.Word" "HOL-Library.Multiset"
begin

section \<open>The skiplist of \<^verbatim>\<open>src/c-cpp/17_skiplist/skiplist_tr.hpp\<close>\<close>

subsection \<open>Data model\<close>

text \<open>
  The container \<^verbatim>\<open>cont_\<close> is a \<^verbatim>\<open>std::list<node_type>\<close>; it is modelled as a HOL list.
  A list iterator denotes one element of the list or the past-the-end position, and an
  iterator that was only value-initialised (what \<^verbatim>\<open>vector::resize\<close> creates) denotes
  nothing at all:
  \<^item> \<open>At i\<close> is the iterator to the element at position \<open>i\<close>;
  \<^item> \<open>End\<close> is \<^verbatim>\<open>cont_.end()\<close>;
  \<^item> \<open>Null\<close> is a value-initialised (singular) iterator.
\<close>

datatype iter = Null | At nat | End

text \<open>
  \<^verbatim>\<open>struct InternalNode { const Key key; std::multiset<Value> values;
  std::vector<iterator> forwards; }\<close>. The field \<^verbatim>\<open>values\<close> is called \<open>vals\<close> here.
\<close>

record ('k, 'v) InternalNode =
  key :: 'k
  vals :: "'v multiset"
  forwards :: "iter list"

text \<open>
  \<^verbatim>\<open>random_level\<close> holds a \<^verbatim>\<open>std::binomial_distribution<IntType>\<close> built from
  \<^verbatim>\<open>(max_level - 1, prob)\<close> and the generator that feeds it. Only the two parameters of
  the distribution are modelled. \<^verbatim>\<open>IntType\<close> is \<^verbatim>\<open>size_t\<close>, taken as 64 bits wide:
  the subtraction wraps.
\<close>

record random_level =
  trials :: nat
  success :: real

definition random_level :: "nat \<Rightarrow> real \<Rightarrow> random_level" where
  "random_level max_level pr =
     \<lparr>trials = (max_level + (2 ^ 64 - 1)) mod 2 ^ 64, success = pr\<rparr>"

text \<open>
  The private members of \<^verbatim>\<open>class skiplist\<close>. The key type \<open>'k\<close> is \<^verbatim>\<open>hash_type\<close>:
  in the operations below an unsigned integer of some width \<open>'w\<close>, that is \<open>'w word\<close>,
  compared by \<^verbatim>\<open>std::less\<close>. \<^verbatim>\<open>prob_\<close> is a \<^verbatim>\<open>double\<close> that the class only stores
  and hands on, so a real number stands for it.
\<close>

record ('k, 'v) skiplist =
  max_lv :: nat
  prob :: real
  rl :: random_level
  cont :: "('k, 'v) InternalNode list"

subsection \<open>The list primitives the class uses\<close>

text \<open>
  \<^verbatim>\<open>cont_.begin()\<close>, \<^verbatim>\<open>cont_.end()\<close> and \<^verbatim>\<open>std::next\<close>. The class calls
  \<^verbatim>\<open>std::next\<close> on \<^verbatim>\<open>cont_.begin()\<close> of a non-empty list only; on \<open>End\<close> and \<open>Null\<close>,
  where C++ leaves the result open, the model returns the argument.
\<close>

definition list_begin :: "'a list \<Rightarrow> iter" where
  "list_begin c = (if c = [] then End else At 0)"

definition list_end :: "'a list \<Rightarrow> iter" where
  "list_end c = End"

fun list_next :: "'a list \<Rightarrow> iter \<Rightarrow> iter" where
  "list_next c (At i) = (if Suc i < length c then At (Suc i) else End)"
| "list_next c End = End"
| "list_next c Null = Null"

text \<open>
  Iterators of a \<^verbatim>\<open>std::list\<close> stay valid when an element is inserted: they go on
  denoting the same element. With positions as iterators, every stored iterator to an
  element at or behind the insertion point moves one position to the right.
\<close>

fun shift_iter :: "nat \<Rightarrow> iter \<Rightarrow> iter" where
  "shift_iter p (At j) = (if p \<le> j then At (Suc j) else At j)"
| "shift_iter p End = End"
| "shift_iter p Null = Null"

definition shift_node :: "nat \<Rightarrow> ('k, 'v) InternalNode \<Rightarrow> ('k, 'v) InternalNode" where
  "shift_node p n = n\<lparr>forwards := map (shift_iter p) (forwards n)\<rparr>"

fun insert_pos :: "'a list \<Rightarrow> iter \<Rightarrow> nat" where
  "insert_pos c (At p) = p"
| "insert_pos c End = length c"
| "insert_pos c Null = length c"

text \<open>
  \<^verbatim>\<open>cont_.insert(pos, node)\<close>: the node goes in front of \<open>pos\<close>. The class inserts
  at \<^verbatim>\<open>cont_.begin()\<close> only, which is \<open>At 0\<close> or, on the empty list, \<open>End\<close>; a singular
  position never occurs and is treated like \<open>End\<close>.
\<close>

definition list_insert ::
  "('k, 'v) InternalNode list \<Rightarrow> iter \<Rightarrow> ('k, 'v) InternalNode \<Rightarrow> ('k, 'v) InternalNode list"
where
  "list_insert c pos n =
     (let p = insert_pos c pos; c' = map (shift_node p) c
      in take p c' @ shift_node p n # drop p c')"

text \<open>
  What can go wrong in the standard library's calls: undefined behaviour (a precondition
  of the library is violated) and the exception \<^verbatim>\<open>std::length_error\<close>.
\<close>

datatype error = Undefined_Behaviour | Length_Error

text \<open>
  \<^verbatim>\<open>forwards.resize(n)\<close> on a \<^verbatim>\<open>std::vector<iterator>\<close>. The call throws
  \<^verbatim>\<open>std::length_error\<close> when \<open>n\<close> exceeds \<^verbatim>\<open>max_size()\<close>, which is
  \<^verbatim>\<open>PTRDIFF_MAX / sizeof(iterator)\<close>: with 64-bit pointers and a list iterator of one
  pointer, \<open>(2^63 - 1) div 8 = 2^60 - 1\<close>. Otherwise the vector has \<open>n\<close> entries
  afterwards (\<open>resized\<close>), the new ones value-initialised. Running out of memory
  (\<^verbatim>\<open>std::bad_alloc\<close>) depends on the machine and is not modelled.
\<close>

definition vector_max_size :: nat where
  "vector_max_size = 2 ^ 60 - 1"

definition resized :: "nat \<Rightarrow> iter list \<Rightarrow> iter list" where
  "resized n fs = take n fs @ replicate (n - length fs) Null"

definition resize :: "nat \<Rightarrow> iter list \<Rightarrow> error + iter list" where
  "resize n fs = (if vector_max_size < n then Inl Length_Error else Inr (resized n fs))"

text \<open>\<^verbatim>\<open>std::fill(v.begin(), v.end(), x)\<close>.\<close>

definition fill :: "iter \<Rightarrow> iter list \<Rightarrow> iter list" where
  "fill x fs = map (\<lambda>_. x) fs"

subsection \<open>Construction\<close>

text \<open>
  \<^verbatim>\<open>init_internally\<close> (lines 98--124): the tail is built and inserted at the front of
  the list, then the head is inserted in front of it, and only then the head's forwards
  are filled with \<^verbatim>\<open>std::next(cont_.begin())\<close>. The two calls of \<^verbatim>\<open>resize\<close> are the
  statements that can throw. \<open>init_internally_call\<close> is the call, with that failing path;
  \<open>init_internally\<close> is the state the call leaves when it returns
  (lemma \<open>init_internally_call_eq\<close>).
\<close>

definition init_internally_call ::
  "('w::len word, 'v) skiplist \<Rightarrow> error + ('w word, 'v) skiplist"
where
  "init_internally_call s =
     (let tail_key = (- 1 :: 'w word);
          tail0 = \<lparr>key = tail_key, vals = {#}, forwards = []\<rparr>
      in case resize (max_lv s) (forwards tail0) of
           Inl e \<Rightarrow> Inl e
         | Inr tail_forwards \<Rightarrow>
            (let tail1 = tail0\<lparr>forwards := tail_forwards\<rparr>;
                 tail2 = tail1\<lparr>forwards := fill (list_end (cont s)) (forwards tail1)\<rparr>;
                 c1 = list_insert (cont s) (list_begin (cont s)) tail2;
                 head_key = (0 :: 'w word);
                 head0 = \<lparr>key = head_key, vals = {#}, forwards = []\<rparr>
             in case resize (max_lv s) (forwards head0) of
                  Inl e \<Rightarrow> Inl e
                | Inr head_forwards \<Rightarrow>
                   (let head1 = head0\<lparr>forwards := head_forwards\<rparr>;
                        c2 = list_insert c1 (list_begin c1) head1;
                        c3 = (case list_begin c2 of
                                At b \<Rightarrow> c2[b := (c2 ! b)\<lparr>forwards :=
                                  fill (list_next c2 (list_begin c2)) (forwards (c2 ! b))\<rparr>]
                              | _ \<Rightarrow> c2)
                    in Inr (s\<lparr>cont := c3\<rparr>))))"

definition init_internally :: "('w::len word, 'v) skiplist \<Rightarrow> ('w word, 'v) skiplist" where
  "init_internally s =
     (let tail_key = (- 1 :: 'w word);
          tail0 = \<lparr>key = tail_key, vals = {#}, forwards = []\<rparr>;
          tail1 = tail0\<lparr>forwards := resized (max_lv s) (forwards tail0)\<rparr>;
          tail2 = tail1\<lparr>forwards := fill (list_end (cont s)) (forwards tail1)\<rparr>;
          c1 = list_insert (cont s) (list_begin (cont s)) tail2;
          head_key = (0 :: 'w word);
          head0 = \<lparr>key = head_key, vals = {#}, forwards = []\<rparr>;
          head1 = head0\<lparr>forwards := resized (max_lv s) (forwards head0)\<rparr>;
          c2 = list_insert c1 (list_begin c1) head1;
          c3 = (case list_begin c2 of
                  At b \<Rightarrow> c2[b := (c2 ! b)\<lparr>forwards :=
                              fill (list_next c2 (list_begin c2)) (forwards (c2 ! b))\<rparr>]
                | _ \<Rightarrow> c2)
      in s\<lparr>cont := c3\<rparr>)"

text \<open>
  The default constructor (line 72) and \<^verbatim>\<open>skiplist(max_lv, prob)\<close> (line 75). Neither
  has a check, a \<^verbatim>\<open>throw\<close> or an early return of its own; both start from the empty
  list. \<open>skiplist_ctor\<close> and \<open>skiplist_default\<close> are the states the constructors leave
  when they return.
\<close>

definition skiplist_ctor :: "nat \<Rightarrow> real \<Rightarrow> ('w::len word, 'v) skiplist" where
  "skiplist_ctor m pr =
     init_internally \<lparr>max_lv = m, prob = pr, rl = random_level m pr, cont = []\<rparr>"

definition skiplist_default :: "('w::len word, 'v) skiplist" where
  "skiplist_default = skiplist_ctor 16 (1 / 2)"

text \<open>
  The constructor calls, with what the standard library can refuse. The members are
  initialised in the order of their declaration: \<^verbatim>\<open>max_lv_\<close>, \<^verbatim>\<open>prob_\<close>, then
  \<^verbatim>\<open>rl_(max_lv_, prob_)\<close>, whose \<^verbatim>\<open>std::binomial_distribution<size_t>(t, p)\<close>
  requires \<open>0 \<le> p \<le> 1\<close> (and \<open>0 \<le> t\<close>, which an unsigned \<open>t\<close> always meets), then
  the empty \<^verbatim>\<open>cont_\<close>; the body runs \<^verbatim>\<open>init_internally\<close>. The argument
  \<^verbatim>\<open>max_lv\<close> (here \<open>m\<close>) is a \<^verbatim>\<open>size_t\<close>, taken as 64 bits wide.
\<close>

definition random_level_call :: "nat \<Rightarrow> real \<Rightarrow> error + random_level" where
  "random_level_call max_level pr =
     (if 0 \<le> pr \<and> pr \<le> 1 then Inr (random_level max_level pr) else Inl Undefined_Behaviour)"

definition skiplist_ctor_call :: "64 word \<Rightarrow> real \<Rightarrow> error + ('w::len word, 'v) skiplist" where
  "skiplist_ctor_call m pr =
     (case random_level_call (unat m) pr of
        Inl e \<Rightarrow> Inl e
      | Inr r \<Rightarrow> init_internally_call \<lparr>max_lv = unat m, prob = pr, rl = r, cont = []\<rparr>)"

definition skiplist_default_call :: "error + ('w::len word, 'v) skiplist" where
  "skiplist_default_call = skiplist_ctor_call 16 (1 / 2)"

subsection \<open>Size\<close>

text \<open>
  \<^verbatim>\<open>size()\<close> is \<^verbatim>\<open>cont_.size() - 2\<close> in \<^verbatim>\<open>size_t\<close> (taken as 64 bits wide): on a list
  shorter than two nodes the subtraction wraps.
\<close>

definition size_sl :: "('k, 'v) skiplist \<Rightarrow> nat" where
  "size_sl s = (length (cont s) + (2 ^ 64 - 2)) mod 2 ^ 64"

definition empty_sl :: "('k, 'v) skiplist \<Rightarrow> bool" where
  "empty_sl s = (size_sl s = 0)"

subsection \<open>Dereferencing\<close>

text \<open>
  Dereferencing \<^verbatim>\<open>end()\<close>, a singular iterator or an iterator to no element of the list,
  and indexing a vector out of range, are undefined behaviour in C++; the model returns
  the error \<open>Undefined_Behaviour\<close> there.
\<close>

definition deref :: "'a list \<Rightarrow> iter \<Rightarrow> error + 'a" where
  "deref c it =
     (case it of
        At i \<Rightarrow> if i < length c then Inr (c ! i) else Inl Undefined_Behaviour
      | _ \<Rightarrow> Inl Undefined_Behaviour)"

definition at_index :: "'a list \<Rightarrow> nat \<Rightarrow> error + 'a" where
  "at_index v i = (if i < length v then Inr (v ! i) else Inl Undefined_Behaviour)"

subsection \<open>Descent and lookup\<close>

text \<open>
  The inner loop of \<^verbatim>\<open>find_helper\<close> (lines 134--138):
  \<^verbatim>\<open>for (forward = iter->forwards[focus];
       forward != cont_.end() and not compare()(forward->key, key);
       forward = iter->forwards[focus]) { iter = forward; }\<close>
  \<^verbatim>\<open>compare\<close> is \<^verbatim>\<open>std::less<hash_type>\<close>, so the loop goes on while
  \<^verbatim>\<open>forward->key < key\<close> is false. The loop may run forever on a cyclic list; the
  result \<open>None\<close> stands for that. The member function is \<^verbatim>\<open>const\<close>: the state is
  passed through and returned with the result.
\<close>

partial_function (option) advance ::
  "('w::len word, 'v) skiplist \<Rightarrow> 'w word \<Rightarrow> nat \<Rightarrow> iter \<Rightarrow>
     ((error + iter) \<times> ('w word, 'v) skiplist) option"
where
  "advance s k focus it =
     (case deref (cont s) it of
        Inl e \<Rightarrow> Some (Inl e, s)
      | Inr n \<Rightarrow>
         (case at_index (forwards n) focus of
            Inl e \<Rightarrow> Some (Inl e, s)
          | Inr forward \<Rightarrow>
             if forward = list_end (cont s) then Some (Inr it, s)
             else
               (case deref (cont s) forward of
                  Inl e \<Rightarrow> Some (Inl e, s)
                | Inr fn \<Rightarrow>
                   if \<not> key fn < k then advance s k focus forward
                   else Some (Inr it, s))))"

text \<open>
  The outer loop (lines 131--140), over the values \<open>i\<close> of the loop counter:
  \<^verbatim>\<open>focus = max_lv_ - 1 - i\<close>.
\<close>

fun find_levels ::
  "('w::len word, 'v) skiplist \<Rightarrow> 'w word \<Rightarrow> nat list \<Rightarrow> iter \<Rightarrow>
     ((error + iter) \<times> ('w word, 'v) skiplist) option"
where
  "find_levels s k [] it = Some (Inr it, s)"
| "find_levels s k (i # is) it =
     (case advance s k (max_lv s - 1 - i) it of
        None \<Rightarrow> None
      | Some (Inl e, s') \<Rightarrow> Some (Inl e, s')
      | Some (Inr it', s') \<Rightarrow> find_levels s' k is it')"

text \<open>\<^verbatim>\<open>find_helper\<close> (lines 129--142) starts at \<^verbatim>\<open>cont_.begin()\<close>.\<close>

definition find_helper ::
  "('w::len word, 'v) skiplist \<Rightarrow> 'w word \<Rightarrow> ((error + iter) \<times> ('w word, 'v) skiplist) option"
where
  "find_helper s k = find_levels s k [0..<max_lv s] (list_begin (cont s))"

text \<open>
  \<^verbatim>\<open>find\<close> (lines 171--175), with the hash function \<^verbatim>\<open>hasher()\<close> as the parameter
  \<open>h\<close>: \<^verbatim>\<open>return (iter->key == key) ? iter : cont_.end();\<close>
\<close>

definition find_sl ::
  "('v \<Rightarrow> 'w::len word) \<Rightarrow> ('w word, 'v) skiplist \<Rightarrow> 'v \<Rightarrow>
     ((error + iter) \<times> ('w word, 'v) skiplist) option"
where
  "find_sl h s target =
     (let k = h target
      in case find_helper s k of
           None \<Rightarrow> None
         | Some (Inl e, s') \<Rightarrow> Some (Inl e, s')
         | Some (Inr it, s') \<Rightarrow>
            (case deref (cont s') it of
               Inl e \<Rightarrow> Some (Inl e, s')
             | Inr n \<Rightarrow> Some (Inr (if key n = k then it else list_end (cont s')), s')))"

subsection \<open>Iteration\<close>


definition end_sl :: "('k, 'v) skiplist \<Rightarrow> iter" where
  "end_sl s = list_end (cont s)"




subsection \<open>Well-formed states\<close>

text \<open>
  A forward link of the node at position \<open>i\<close> is in order when it is \<open>End\<close> or points
  to a node strictly later in the list.
\<close>

fun later :: "nat \<Rightarrow> nat \<Rightarrow> iter \<Rightarrow> bool" where
  "later len i (At j) = (i < j \<and> j < len)"
| "later len i End = True"
| "later len i Null = False"

definition links_forward :: "('k, 'v) InternalNode list \<Rightarrow> bool" where
  "links_forward c =
     list_all (\<lambda>(i, n). list_all (later (length c) i) (forwards n)) (enumerate 0 c)"

text \<open>Every node carries \<^verbatim>\<open>max_lv_\<close> forward entries, and the list is not empty.\<close>

definition well_sized :: "('k, 'v) skiplist \<Rightarrow> bool" where
  "well_sized s =
     (cont s \<noteq> [] \<and> list_all (\<lambda>n. length (forwards n) = max_lv s) (cont s))"

subsection \<open>Insertion and bulk construction\<close>

text \<open>
  Modelled from the spec: the member function \<^verbatim>\<open>insert\<close> is called by the range
  constructor (line 88), but the source neither declares nor defines it. What follows is
  the descent of the specification's sections 2 and 4.2, on one level: starting at
  position \<open>i\<close>, follow \<open>forwards[L]\<close> while the node reached is not the tail or the end
  marker and its key does not exceed the target key. Section 4.2 says "strictly less" for
  the key, against its own postcondition (the node with the greatest key \<open>\<le>\<close> the
  target) and against section 2 ("while the next node's key does not exceed the target
  key"); the postcondition is followed. A forward link leads to the right (section 3),
  and only such a link is followed.
\<close>

function locate_level ::
  "('w::len word, 'v) InternalNode list \<Rightarrow> 'w word \<Rightarrow> nat \<Rightarrow> nat \<Rightarrow> nat"
where
  "locate_level c k L i =
     (if i < length c \<and> L < length (forwards (c ! i)) then
        (case forwards (c ! i) ! L of
           At j \<Rightarrow>
             if i < j \<and> Suc j < length c \<and> key (c ! j) \<le> k then locate_level c k L j else i
         | _ \<Rightarrow> i)
      else i)"
  by pat_completeness auto
termination
  by (relation "measure (\<lambda>(c, k, L, i). length c - i)") auto

declare locate_level.simps [simp del]

text \<open>
  Modelled from the spec: the descent of section 4.2 over the given levels, "carrying the
  current node forward"; the result lists the node at which the descent stopped on each
  level, the per-level predecessors that section 4.4 retains from the single pass.
\<close>

fun locate_path ::
  "('w::len word, 'v) InternalNode list \<Rightarrow> 'w word \<Rightarrow> nat list \<Rightarrow> nat \<Rightarrow> nat list"
where
  "locate_path c k [] i = []"
| "locate_path c k (L # Ls) i = (let p = locate_level c k L i in p # locate_path c k Ls p)"

text \<open>
  Modelled from the spec: \<^verbatim>\<open>insert(value)\<close> of section 4.4, missing from the source.
  The levels are visited from \<open>max_level - 1\<close> down to 0, so \<open>preds ! L\<close> is the
  predecessor on level \<open>L\<close> and \<open>p\<close>, the one on level 0, is the predecessor. The argument
  \<open>d\<close> is the value the level generator returns if this call draws one (section 4.1: the
  node takes part in \<open>1 + d\<close> levels, capped at \<open>max_level\<close>).
  \<^item> "If \<open>predecessor.key == key\<close> (existing node for this hash)": the value joins the
    node's multiset. The head is no node for a hash (a sentinel never holds real data,
    says the glossary), so the test is made for an interior predecessor.
  \<^item> Otherwise a node with the key and the value is spliced in right after the
    predecessor. On each level its forward entry takes over that of the level's
    predecessor; on the levels below \<open>lvl\<close> the predecessor is then pointed at the new
    node, and on the levels from \<open>lvl\<close> on nothing else changes (an unused upper entry
    borrows the node to the right on that level, section 3).
\<close>

definition insert_sl ::
  "('v \<Rightarrow> 'w::len word) \<Rightarrow> nat \<Rightarrow> 'v \<Rightarrow> ('w word, 'v) skiplist \<Rightarrow> ('w word, 'v) skiplist"
where
  "insert_sl h d v s =
     (let k = h v;
          c = cont s;
          preds = rev (locate_path c k (rev [0..<max_lv s]) 0);
          p = (if preds = [] then 0 else preds ! 0)
      in if 0 < p \<and> key (c ! p) = k
         then s\<lparr>cont := c[p := (c ! p)\<lparr>vals := add_mset v (vals (c ! p))\<rparr>]\<rparr>
         else
           (let lvl = min (max_lv s) (Suc d);
                new = \<lparr>key = k, vals = {#v#},
                       forwards = map (\<lambda>L. forwards (c ! (preds ! L)) ! L) [0..<max_lv s]\<rparr>;
                c1 = list_insert c (list_next c (At p)) new;
                c2 = fold (\<lambda>L c'. c'[preds ! L := (c' ! (preds ! L))
                            \<lparr>forwards := (forwards (c' ! (preds ! L)))[L := At (Suc p)]\<rparr>])
                       [0..<lvl] c1
            in s\<lparr>cont := c2\<rparr>))"

text \<open>
  The loop of the range constructor (lines 87--89),
  \<^verbatim>\<open>for (InputIt i = first; i != last; ++i) insert(*i);\<close>. Each element of the
  sequence comes with the level generator's value for its insertion.
\<close>

fun insert_range ::
  "('v \<Rightarrow> 'w::len word) \<Rightarrow> ('w word, 'v) skiplist \<Rightarrow> (nat \<times> 'v) list \<Rightarrow> ('w word, 'v) skiplist"
where
  "insert_range h s [] = s"
| "insert_range h s ((d, v) # xs) = insert_range h (insert_sl h d v s) xs"

text \<open>
  \<^verbatim>\<open>skiplist(InputIt first, InputIt last) : skiplist()\<close> (line 83) runs the loop on the
  default-constructed skiplist, and the initializer-list constructor (line 91) hands its
  list to the range constructor.
\<close>

definition skiplist_range ::
  "('v \<Rightarrow> 'w::len word) \<Rightarrow> (nat \<times> 'v) list \<Rightarrow> ('w word, 'v) skiplist"
where
  "skiplist_range h xs = insert_range h skiplist_default xs"

definition skiplist_init_list ::
  "('v \<Rightarrow> 'w::len word) \<Rightarrow> (nat \<times> 'v) list \<Rightarrow> ('w word, 'v) skiplist"
where
  "skiplist_init_list h init = skiplist_range h init"

text \<open>
  The part of the data model's invariant (section 3 of the specification) that insertion
  relies on: there is a level 0, the list holds the two sentinels, every node carries
  \<open>max_level\<close> forward entries, on level 0 every node but the last points to its
  successor, and the keys of the interior nodes increase strictly.
\<close>

definition ordered :: "('w::len word, 'v) skiplist \<Rightarrow> bool" where
  "ordered s =
     (0 < max_lv s \<and> 2 \<le> length (cont s) \<and>
      list_all (\<lambda>n. length (forwards n) = max_lv s) (cont s) \<and>
      list_all (\<lambda>(i, n). forwards n ! 0 = At (Suc i)) (enumerate 0 (butlast (cont s))) \<and>
      sorted_wrt (<) (map key (butlast (tl (cont s)))))"

subsection \<open>A state with interior nodes\<close>

text \<open>
  The scenario of the specification's section 8: four levels and the keys 10, 15 and 20
  between the sentinels, each interior node linked on level 0 only; the values are their
  own hashes.
\<close>

definition scenario :: "(64 word, 64 word) skiplist" where
  "scenario =
     \<lparr>max_lv = 4, prob = 1 / 2, rl = random_level 4 (1 / 2),
      cont =
        [\<lparr>key = 0, vals = {#}, forwards = [At 1, At 4, At 4, At 4]\<rparr>,
         \<lparr>key = 10, vals = {#10#}, forwards = [At 2, At 4, At 4, At 4]\<rparr>,
         \<lparr>key = 15, vals = {#15#}, forwards = [At 3, At 4, At 4, At 4]\<rparr>,
         \<lparr>key = 20, vals = {#20#}, forwards = [At 4, At 4, At 4, At 4]\<rparr>,
         \<lparr>key = - 1, vals = {#}, forwards = [End, End, End, End]\<rparr>]\<rparr>"

section \<open>Properties\<close>

lemma cont_skiplist_ctor:
  "cont (skiplist_ctor m pr :: ('w::len word, 'v) skiplist) =
     [\<lparr>key = 0, vals = {#}, forwards = replicate m (At 1)\<rparr>,
      \<lparr>key = - 1, vals = {#}, forwards = replicate m End\<rparr>]"
  by (simp add: skiplist_ctor_def init_internally_def list_insert_def list_begin_def
      list_end_def resized_def fill_def shift_node_def map_replicate_const)

subsection \<open>The constructor's call and the state it leaves\<close>

text \<open>
  The call of \<^verbatim>\<open>init_internally\<close> fails exactly when \<^verbatim>\<open>resize\<close> throws, that is when
  \<open>max_lv\<close> exceeds the vector's \<^verbatim>\<open>max_size()\<close>; the constructor fails there and, before
  that, where the probability violates the precondition of \<^verbatim>\<open>std::binomial_distribution\<close>.
  A call that returns leaves the state \<open>init_internally\<close>, \<open>skiplist_ctor\<close>; the default
  constructor always returns.
\<close>

lemma init_internally_call_eq:
  "init_internally_call s =
     (if vector_max_size < max_lv s then Inl Length_Error else Inr (init_internally s))"
  by (simp add: init_internally_call_def init_internally_def resize_def Let_def
      cong: iter.case_cong)

lemma skiplist_ctor_call_eq:
  "skiplist_ctor_call m pr =
     (if \<not> (0 \<le> pr \<and> pr \<le> 1) then Inl Undefined_Behaviour
      else if vector_max_size < unat m then Inl Length_Error
      else Inr (skiplist_ctor (unat m) pr))"
  by (simp add: skiplist_ctor_call_def random_level_call_def init_internally_call_eq
      skiplist_ctor_def)

lemma skiplist_default_call_eq: "skiplist_default_call = Inr skiplist_default"
  by (simp add: skiplist_default_call_def skiplist_ctor_call_eq skiplist_default_def
      vector_max_size_def)

subsection \<open>The calls leave the state as it is\<close>

lemma advance_snd: "advance s k f it = Some y \<Longrightarrow> snd y = s"
  by (rule advance.raw_induct[where P = "\<lambda>s k f it y. snd y = s"])
    (auto split: sum.splits if_splits)

lemma advance_state: "advance s k f it = Some (r, s') \<Longrightarrow> s' = s"
  using advance_snd by fastforce

lemma find_levels_state: "find_levels s k is it = Some (r, s') \<Longrightarrow> s' = s"
proof (induction "is" arbitrary: it)
  case Nil
  then show ?case by simp
next
  case (Cons i "is")
  then show ?case
    by (auto split: option.splits sum.splits prod.splits dest: advance_state)
qed

lemma find_helper_state: "find_helper s k = Some (r, s') \<Longrightarrow> s' = s"
  unfolding find_helper_def by (rule find_levels_state)

lemma find_sl_state: "find_sl h s v = Some (r, s') \<Longrightarrow> s' = s"
  unfolding find_sl_def Let_def
  by (auto split: option.splits sum.splits prod.splits dest: find_helper_state)

subsection \<open>Termination of the descent\<close>

lemma links_forwardD:
  assumes "links_forward c" "i < length c" "f \<in> set (forwards (c ! i))"
  shows "later (length c) i f"
proof -
  from assms(2) have "(i, c ! i) \<in> set (enumerate 0 c)"
    by (simp add: in_set_enumerate_eq)
  with assms(1) have "list_all (later (length c) i) (forwards (c ! i))"
    unfolding links_forward_def list_all_iff by fastforce
  with assms(3) show ?thesis
    by (simp add: list_all_iff)
qed

lemma well_sizedD:
  "well_sized s \<Longrightarrow> i < length (cont s) \<Longrightarrow> length (forwards (cont s ! i)) = max_lv s"
  by (simp add: well_sized_def list_all_length)

text \<open>
  Each round of the inner loop moves to a later position of the list, so the distance to
  the end of the list decreases.
\<close>

lemma advance_terminates:
  assumes "links_forward (cont s)"
  shows "\<exists>r. advance s k f it = Some (r, s)"
proof (cases it)
  case (At i)
  have "\<exists>r. advance s k f (At i) = Some (r, s)"
  proof (induction "length (cont s) - i" arbitrary: i rule: less_induct)
    case less
    show ?case
    proof (cases "i < length (cont s) \<and> f < length (forwards (cont s ! i))")
      case False
      then show ?thesis
        by (subst advance.simps) (auto simp: deref_def at_index_def)
    next
      case True
      then have m: "forwards (cont s ! i) ! f \<in> set (forwards (cont s ! i))" by simp
      have l: "later (length (cont s)) i (forwards (cont s ! i) ! f)"
        using links_forwardD[OF assms _ m] True by simp
      show ?thesis
      proof (cases "forwards (cont s ! i) ! f")
        case Null
        with l show ?thesis by simp
      next
        case End
        with True show ?thesis
          by (subst advance.simps) (simp add: deref_def at_index_def list_end_def)
      next
        case (At j)
        with l have j: "i < j" "j < length (cont s)" by simp_all
        then have "length (cont s) - j < length (cont s) - i" by arith
        from less[OF this] obtain r where "advance s k f (At j) = Some (r, s)" by blast
        with True At j show ?thesis
          by (subst advance.simps) (simp add: deref_def at_index_def list_end_def)
      qed
    qed
  qed
  with At show ?thesis by simp
qed (subst advance.simps, simp add: deref_def)+

lemma advance_valid:
  assumes lf: "links_forward (cont s)" and ws: "well_sized s" and f: "f < max_lv s"
  shows "i < length (cont s) \<Longrightarrow>
     \<exists>j. advance s k f (At i) = Some (Inr (At j), s) \<and> i \<le> j \<and> j < length (cont s)"
proof (induction "length (cont s) - i" arbitrary: i rule: less_induct)
  case less
  from less.prems ws f have fl: "f < length (forwards (cont s ! i))"
    by (simp add: well_sizedD)
  then have "forwards (cont s ! i) ! f \<in> set (forwards (cont s ! i))" by simp
  from links_forwardD[OF lf less.prems this]
  have l: "later (length (cont s)) i (forwards (cont s ! i) ! f)" .
  show ?case
  proof (cases "forwards (cont s ! i) ! f")
    case Null
    with l show ?thesis by simp
  next
    case End
    with less.prems fl show ?thesis
      by (subst advance.simps) (simp add: deref_def at_index_def list_end_def)
  next
    case (At j)
    with l have j: "i < j" "j < length (cont s)" by simp_all
    then have "length (cont s) - j < length (cont s) - i" by arith
    from less.hyps[OF this j(2)] obtain j' where
      "advance s k f (At j) = Some (Inr (At j'), s)" "j \<le> j'" "j' < length (cont s)" by blast
    with less.prems fl At j show ?thesis
      by (subst advance.simps) (auto simp add: deref_def at_index_def list_end_def)
  qed
qed

lemma find_levels_terminates:
  assumes "links_forward (cont s)"
  shows "\<exists>r. find_levels s k is it = Some (r, s)"
proof (induction "is" arbitrary: it)
  case Nil
  show ?case by simp
next
  case (Cons i "is")
  from advance_terminates[OF assms] obtain r where
    r: "advance s k (max_lv s - 1 - i) it = Some (r, s)" by blast
  show ?case
  proof (cases r)
    case (Inl e)
    with r show ?thesis by simp
  next
    case (Inr it')
    with r Cons.IH[of it'] show ?thesis by simp
  qed
qed

lemma find_levels_valid:
  assumes lf: "links_forward (cont s)" and ws: "well_sized s" and m: "0 < max_lv s"
  shows "i < length (cont s) \<Longrightarrow>
     \<exists>j. find_levels s k is (At i) = Some (Inr (At j), s) \<and> i \<le> j \<and> j < length (cont s)"
proof (induction "is" arbitrary: i)
  case Nil
  then show ?case by simp
next
  case (Cons x "is")
  from m have "max_lv s - 1 - x < max_lv s" by arith
  from advance_valid[OF lf ws this Cons.prems] obtain j where
    j: "advance s k (max_lv s - 1 - x) (At i) = Some (Inr (At j), s)"
      "i \<le> j" "j < length (cont s)"
    by blast
  from Cons.IH[OF j(3)] obtain j' where
    "find_levels s k is (At j) = Some (Inr (At j'), s)" "j \<le> j'" "j' < length (cont s)"
    by blast
  with j show ?case by auto
qed

lemma find_helper_valid:
  assumes lf: "links_forward (cont s)" and ws: "well_sized s"
  shows "\<exists>j. find_helper s k = Some (Inr (At j), s) \<and> j < length (cont s)"
proof (cases "max_lv s")
  case 0
  with ws show ?thesis
    by (simp add: find_helper_def list_begin_def well_sized_def)
next
  case (Suc m)
  then have "0 < max_lv s" by simp
  from ws have "0 < length (cont s)" by (simp add: well_sized_def)
  from find_levels_valid[OF lf ws \<open>0 < max_lv s\<close> this, of k "[0..<max_lv s]"] ws
  show ?thesis
    by (auto simp: find_helper_def list_begin_def well_sized_def)
qed


subsection \<open>Freshly constructed skiplists\<close>

lemma max_lv_skiplist_ctor [simp]: "max_lv (skiplist_ctor m pr) = m"
  by (simp add: skiplist_ctor_def init_internally_def Let_def)

lemma prob_skiplist_ctor [simp]: "prob (skiplist_ctor m pr) = pr"
  by (simp add: skiplist_ctor_def init_internally_def Let_def)

lemma rl_skiplist_ctor [simp]: "rl (skiplist_ctor m pr) = random_level m pr"
  by (simp add: skiplist_ctor_def init_internally_def Let_def)



lemma advance_fresh_tail:
  assumes "f < m"
  shows "advance (skiplist_ctor m pr) k f (At (Suc 0)) = Some (Inr (At (Suc 0)), skiplist_ctor m pr)"
  using assms
  by (subst advance.simps) (simp add: cont_skiplist_ctor deref_def at_index_def list_end_def)

lemma advance_fresh_head:
  assumes "f < m"
  shows "advance (skiplist_ctor m pr) k f (At 0) = Some (Inr (At (Suc 0)), skiplist_ctor m pr)"
  using assms advance_fresh_tail[OF assms, of pr k]
  by (subst advance.simps)
    (simp add: cont_skiplist_ctor deref_def at_index_def list_end_def word_order.extremum_strict)

lemma find_levels_fresh_tail:
  assumes "0 < m"
  shows "find_levels (skiplist_ctor m pr) k is (At (Suc 0)) =
     Some (Inr (At (Suc 0)), skiplist_ctor m pr)"
proof (induction "is")
  case Nil
  show ?case by simp
next
  case (Cons x "is")
  from assms have "m - 1 - x < m" by arith
  with Cons show ?case by (simp add: advance_fresh_tail)
qed

lemma find_helper_fresh:
  assumes "0 < m"
  shows "find_helper (skiplist_ctor m pr) k = Some (Inr (At 1), skiplist_ctor m pr)"
proof -
  from assms have u: "[0..<m] = 0 # [1..<m]" by (simp add: upt_conv_Cons)
  from assms have "m - 1 - 0 < m" by arith
  then show ?thesis
    by (simp add: find_helper_def u cont_skiplist_ctor list_begin_def
        advance_fresh_head find_levels_fresh_tail[OF assms])
qed

subsection \<open>The scenario\<close>

lemma links_forward_scenario: "links_forward (cont scenario)"
  by (simp add: scenario_def links_forward_def)

lemma well_sized_scenario: "well_sized scenario"
  by (simp add: scenario_def well_sized_def)

lemma find_helper_scenario_20: "find_helper scenario 20 = Some (Inr (At 4), scenario)"
  by (simp add: find_helper_def scenario_def list_begin_def upt_conv_Cons advance.simps
      deref_def at_index_def list_end_def)


lemma find_sl_scenario_20: "find_sl (\<lambda>v. v) scenario 20 = Some (Inr End, scenario)"
  by (simp add: find_sl_def find_helper_scenario_20 deref_def list_end_def)
    (simp add: scenario_def)

subsection \<open>Iteration\<close>



lemma find_sl_valid:
  assumes lf: "links_forward (cont s)" and ws: "well_sized s"
  shows "\<exists>r. find_sl h s v = Some (Inr r, s) \<and>
           (r = End \<or> (\<exists>j. r = At j \<and> j < length (cont s) \<and> key (cont s ! j) = h v))"
proof -
  from find_helper_valid[OF lf ws] obtain j where
    "find_helper s (h v) = Some (Inr (At j), s)" "j < length (cont s)" by blast
  then show ?thesis
    by (simp add: find_sl_def deref_def list_end_def)
qed

lemma find_sl_terminates:
  assumes "links_forward (cont s)"
  shows "\<exists>r. find_sl h s v = Some (r, s)"
proof -
  from find_levels_terminates[OF assms] obtain r where
    r: "find_helper s (h v) = Some (r, s)" unfolding find_helper_def by blast
  then show ?thesis
    by (cases r) (auto simp: find_sl_def split: sum.splits)
qed

subsection \<open>Insertion\<close>

lemma orderedD_level0:
  assumes "ordered s" "Suc i < length (cont s)"
  shows "forwards (cont s ! i) ! 0 = At (Suc i)" "0 < length (forwards (cont s ! i))"
proof -
  from assms(2) have i: "i < length (butlast (cont s))" by simp
  then have "(i, butlast (cont s) ! i) \<in> set (enumerate 0 (butlast (cont s)))"
    by (simp add: in_set_enumerate_eq)
  moreover from assms(1)
  have "list_all (\<lambda>(i, n). forwards n ! 0 = At (Suc i)) (enumerate 0 (butlast (cont s)))"
    by (simp add: ordered_def)
  ultimately have "forwards (butlast (cont s) ! i) ! 0 = At (Suc i)"
    unfolding list_all_iff by fastforce
  with i show "forwards (cont s ! i) ! 0 = At (Suc i)"
    by (simp add: nth_butlast)
  from assms show "0 < length (forwards (cont s ! i))"
    by (simp add: ordered_def list_all_length)
qed

lemma orderedD_keys:
  assumes "ordered s" "0 < i" "i < j" "Suc j < length (cont s)"
  shows "key (cont s ! i) < key (cont s ! j)"
proof -
  let ?xs = "map key (butlast (tl (cont s)))"
  from assms have len: "j - 1 < length ?xs" "i - 1 < j - 1" by simp_all
  from assms(1) have "sorted_wrt (<) ?xs" by (simp add: ordered_def)
  from sorted_wrt_nth_less[OF this len(2) len(1)] have "?xs ! (i - 1) < ?xs ! (j - 1)" .
  with assms show ?thesis
    by (simp add: nth_butlast nth_tl)
qed

lemma locate_level_range:
  "Suc i < length c \<Longrightarrow> i \<le> locate_level c k L i \<and> Suc (locate_level c k L i) < length c"
proof (induction c k L i rule: locate_level.induct)
  case (1 c k L i)
  show ?case
    using 1 by (subst (1 2) locate_level.simps) (auto split: iter.splits)
qed

lemma locate_path_range:
  "Suc i < length c \<Longrightarrow> \<forall>r \<in> set (locate_path c k Ls i). Suc r < length c"
proof (induction Ls arbitrary: i)
  case Nil
  show ?case by simp
next
  case (Cons L Ls)
  from locate_level_range[OF Cons.prems] have "Suc (locate_level c k L i) < length c" by simp
  with Cons.IH[OF this] show ?case by (simp add: Let_def)
qed

lemma length_locate_path [simp]: "length (locate_path c k Ls i) = length Ls"
  by (induction Ls arbitrary: i) (simp_all add: Let_def)

lemma locate_path_Nil_iff [simp]: "locate_path c k Ls i = [] \<longleftrightarrow> Ls = []"
  by (cases Ls) (simp_all add: Let_def)

lemma locate_level_stays:
  assumes o: "ordered s" and p: "0 < p" "Suc p < length (cont s)"
  shows "i \<le> p \<Longrightarrow> locate_level (cont s) (key (cont s ! p)) L i \<le> p"
proof (induction "cont s" "key (cont s ! p)" L i rule: locate_level.induct)
  case (1 L i)
  show ?case
  proof (cases "i < length (cont s) \<and> L < length (forwards (cont s ! i))")
    case False
    with 1 show ?thesis by (subst locate_level.simps) auto
  next
    case True
    show ?thesis
    proof (cases "forwards (cont s ! i) ! L")
      case (At j)
      show ?thesis
      proof (cases "i < j \<and> Suc j < length (cont s) \<and> key (cont s ! j) \<le> key (cont s ! p)")
        case adv: True
        have "j \<le> p"
        proof (rule ccontr)
          assume "\<not> j \<le> p"
          then have "p < j" by simp
          from orderedD_keys[OF o p(1) this] adv show False
            by (auto simp: less_le_not_le)
        qed
        from "1.hyps"[OF True At adv this] True At adv show ?thesis
          by (subst locate_level.simps) simp
      next
        case False
        with True At 1 show ?thesis by (subst locate_level.simps) auto
      qed
    qed (use True 1 in \<open>subst locate_level.simps, simp\<close>)+
  qed
qed

lemma locate_level_base:
  assumes o: "ordered s" and p: "0 < p" "Suc p < length (cont s)"
  shows "i \<le> p \<Longrightarrow> locate_level (cont s) (key (cont s ! p)) 0 i = p"
proof (induction "p - i" arbitrary: i)
  case 0
  then have i: "i = p" by simp
  from orderedD_level0[OF o p(2)] have f: "forwards (cont s ! p) ! 0 = At (Suc p)"
    "0 < length (forwards (cont s ! p))" .
  have "\<not> (Suc (Suc p) < length (cont s) \<and> key (cont s ! Suc p) \<le> key (cont s ! p))"
    using orderedD_keys[OF o p(1), of "Suc p"] by auto
  with f p i show ?case
    by (subst locate_level.simps) auto
next
  case (Suc d)
  then have i: "i < p" by simp
  with p have si: "Suc i < length (cont s)" by simp
  from orderedD_level0[OF o si] have f: "forwards (cont s ! i) ! 0 = At (Suc i)"
    "0 < length (forwards (cont s ! i))" .
  have k: "key (cont s ! Suc i) \<le> key (cont s ! p)"
  proof (cases "Suc i = p")
    case False
    with i have "Suc i < p" by simp
    from orderedD_keys[OF o _ this p(2)] show ?thesis by simp
  qed simp
  from Suc.hyps(2) i have "d = p - Suc i" "Suc i \<le> p" by simp_all
  from Suc.hyps(1)[OF this] f k i p show ?case
    by (subst locate_level.simps) auto
qed

lemma locate_path_last:
  assumes o: "ordered s" and p: "0 < p" "Suc p < length (cont s)"
  shows "i \<le> p \<Longrightarrow> last (locate_path (cont s) (key (cont s ! p)) (Ls @ [0]) i) = p"
proof (induction Ls arbitrary: i)
  case Nil
  with locate_level_base[OF o p] show ?case by (simp add: Let_def)
next
  case (Cons L Ls)
  from locate_level_stays[OF o p Cons.prems]
  have "locate_level (cont s) (key (cont s ! p)) L i \<le> p" .
  from Cons.IH[OF this] show ?case
    by (simp add: Let_def)
qed


lemma map_key_update_forwards [simp]:
  "map key (c[i := (c ! i)\<lparr>forwards := fs\<rparr>]) = map key c"
  by (cases "i < length c") (auto simp: list_eq_iff_nth_eq nth_list_update)

lemma map_vals_update_forwards [simp]:
  "map vals (c[i := (c ! i)\<lparr>forwards := fs\<rparr>]) = map vals c"
  by (cases "i < length c") (auto simp: list_eq_iff_nth_eq nth_list_update)

lemma map_key_relink:
  "map key (fold (\<lambda>L c'. c'[f L := (c' ! f L)\<lparr>forwards := g L c'\<rparr>]) Ls c) = map key c"
  by (induction Ls arbitrary: c) simp_all

lemma map_vals_relink:
  "map vals (fold (\<lambda>L c'. c'[f L := (c' ! f L)\<lparr>forwards := g L c'\<rparr>]) Ls c) = map vals c"
  by (induction Ls arbitrary: c) simp_all

lemma map_key_list_insert:
  "map key (list_insert c (At q) n) = take q (map key c) @ key n # drop q (map key c)"
  by (simp add: list_insert_def shift_node_def take_map drop_map comp_def)

lemma map_vals_list_insert:
  "map vals (list_insert c (At q) n) = take q (map vals c) @ vals n # drop q (map vals c)"
  by (simp add: list_insert_def shift_node_def take_map drop_map comp_def)

lemma rev_upt_0: "0 < m \<Longrightarrow> rev [0..<m] = rev [Suc 0..<m] @ [0]"
  by (simp add: upt_conv_Cons)

lemma insert_existing:
  assumes o: "ordered s" and p: "0 < p" "Suc p < length (cont s)" and k: "key (cont s ! p) = h v"
  shows "insert_sl h d v s =
           s\<lparr>cont := (cont s)[p := (cont s ! p)\<lparr>vals := add_mset v (vals (cont s ! p))\<rparr>]\<rparr>"
proof -
  from o have m: "0 < max_lv s" by (simp add: ordered_def)
  let ?path = "locate_path (cont s) (h v) (rev [0..<max_lv s]) 0"
  from locate_path_last[OF o p, of 0 "rev [Suc 0..<max_lv s]"] k m
  have l: "last ?path = p" by (simp add: rev_upt_0)
  from m have ne: "?path \<noteq> []" by simp
  then have "rev ?path ! 0 = last ?path"
    by (simp add: hd_rev flip: hd_conv_nth)
  with l ne p k show ?thesis
    by (simp add: insert_sl_def Let_def)
qed

lemma insert_absent:
  assumes len: "2 \<le> length (cont s)"
    and a: "h v \<notin> set (map key (butlast (tl (cont s))))"
  shows "\<exists>q. 0 < q \<and> q < length (cont s) \<and>
           map key (cont (insert_sl h d v s)) =
             take q (map key (cont s)) @ h v # drop q (map key (cont s)) \<and>
           map vals (cont (insert_sl h d v s)) =
             take q (map vals (cont s)) @ {#v#} # drop q (map vals (cont s))"
proof -
  let ?path = "locate_path (cont s) (h v) (rev [0..<max_lv s]) 0"
  define p where "p = (if rev ?path = [] then 0 else rev ?path ! 0)"
  from len have "Suc 0 < length (cont s)" by simp
  from locate_path_range[OF this] have r: "\<forall>r \<in> set (rev ?path). Suc r < length (cont s)"
    by simp
  have sp: "Suc p < length (cont s)"
  proof (cases "rev ?path = []")
    case True
    with len show ?thesis by (simp add: p_def)
  next
    case False
    then have "rev ?path ! 0 \<in> set (rev ?path)"
      by (intro nth_mem) simp
    with r False show ?thesis by (simp add: p_def)
  qed
  have "\<not> (0 < p \<and> key (cont s ! p) = h v)"
  proof
    assume c: "0 < p \<and> key (cont s ! p) = h v"
    with sp have b: "p - 1 < length (butlast (tl (cont s)))" by (simp, arith)
    then have "butlast (tl (cont s)) ! (p - 1) \<in> set (butlast (tl (cont s)))"
      by (rule nth_mem)
    moreover from b have "butlast (tl (cont s)) ! (p - 1) = tl (cont s) ! (p - 1)"
      by (rule nth_butlast)
    moreover from c sp have "tl (cont s) ! (p - 1) = cont s ! p"
      by (simp add: nth_tl)
    ultimately have "cont s ! p \<in> set (butlast (tl (cont s)))"
      by simp
    with a c show False by force
  qed
  with sp have "map key (cont (insert_sl h d v s)) =
      take (Suc p) (map key (cont s)) @ h v # drop (Suc p) (map key (cont s))"
    and "map vals (cont (insert_sl h d v s)) =
      take (Suc p) (map vals (cont s)) @ {#v#} # drop (Suc p) (map vals (cont s))"
    unfolding insert_sl_def Let_def p_def[symmetric]
    by (auto simp add: map_key_relink map_vals_relink map_key_list_insert map_vals_list_insert)
  with sp show ?thesis by blast
qed

lemma insert_range_foldl:
  "insert_range h s xs = foldl (\<lambda>s (d, v). insert_sl h d v s) s xs"
  by (induction xs arbitrary: s) auto


lemma ordered_scenario: "ordered scenario"
  by (simp add: ordered_def scenario_def)

lemma ordered_fresh: "0 < m \<Longrightarrow> ordered (skiplist_ctor m pr)"
  by (cases m) (simp_all add: ordered_def cont_skiplist_ctor)

text \<open>Insertion re-establishes the invariant it relies on.\<close>

lemma ordered_iff:
  "ordered s \<longleftrightarrow>
     0 < max_lv s \<and> 2 \<le> length (cont s) \<and>
     (\<forall>i<length (cont s). length (forwards (cont s ! i)) = max_lv s) \<and>
     (\<forall>i. Suc i < length (cont s) \<longrightarrow> forwards (cont s ! i) ! 0 = At (Suc i)) \<and>
     (\<forall>i j. 0 < i \<and> i < j \<and> Suc j < length (cont s) \<longrightarrow> key (cont s ! i) < key (cont s ! j))"
  (is "?l \<longleftrightarrow> ?r")
proof
  assume o: ?l
  then show ?r
    using orderedD_level0(1)[OF o] orderedD_keys[OF o]
    by (auto simp: ordered_def list_all_length)
next
  assume r: ?r
  have "list_all (\<lambda>(i, n). forwards n ! 0 = At (Suc i)) (enumerate 0 (butlast (cont s)))"
    using r by (auto simp: list_all_length nth_enumerate_eq nth_butlast)
  moreover have "sorted_wrt (<) (map key (butlast (tl (cont s))))"
    unfolding sorted_wrt_iff_nth_less
  proof (intro allI impI)
    fix i j
    assume ij: "i < j" "j < length (map key (butlast (tl (cont s))))"
    then have "0 < Suc i \<and> Suc i < Suc j \<and> Suc (Suc j) < length (cont s)" by simp
    with r have "key (cont s ! Suc i) < key (cont s ! Suc j)" by blast
    with ij show "map key (butlast (tl (cont s))) ! i < map key (butlast (tl (cont s))) ! j"
      by (simp add: nth_butlast nth_tl)
  qed
  ultimately show ?l
    using r by (simp add: ordered_def list_all_length)
qed

lemma relink_step_length:
  "i < length c \<Longrightarrow>
   length (forwards (c[q := (c ! q)\<lparr>forwards := (forwards (c ! q))[L := x]\<rparr>] ! i)) =
   length (forwards (c ! i))"
  by (cases "i = q") simp_all

lemma relink_step_level0:
  "i < length c \<Longrightarrow>
   forwards (c[q := (c ! q)\<lparr>forwards := (forwards (c ! q))[L := x]\<rparr>] ! i) ! 0 =
   (if L = 0 \<and> q = i \<and> 0 < length (forwards (c ! i)) then x else forwards (c ! i) ! 0)"
  by (cases "i = q"; cases L; cases "forwards (c ! i)") simp_all

lemma relink_length [simp]:
  "length (fold (\<lambda>L c'. c'[f L := (c' ! f L)\<lparr>forwards := (forwards (c' ! f L))[L := x]\<rparr>]) Ls c) =
     length c"
  by (induction Ls arbitrary: c) simp_all

lemma relink_forwards_length:
  "i < length c \<Longrightarrow>
   length (forwards
     (fold (\<lambda>L c'. c'[f L := (c' ! f L)\<lparr>forwards := (forwards (c' ! f L))[L := x]\<rparr>]) Ls c ! i)) =
   length (forwards (c ! i))"
proof (induction Ls arbitrary: c)
  case Nil
  show ?case by simp
next
  case (Cons L Ls)
  let ?c = "c[f L := (c ! f L)\<lparr>forwards := (forwards (c ! f L))[L := x]\<rparr>]"
  from Cons.prems have "i < length ?c" by simp
  from Cons.IH[OF this] relink_step_length[OF Cons.prems, of "f L" L x] show ?case
    by simp
qed

lemma relink_level0:
  "i < length c \<Longrightarrow>
   forwards
     (fold (\<lambda>L c'. c'[f L := (c' ! f L)\<lparr>forwards := (forwards (c' ! f L))[L := x]\<rparr>]) Ls c ! i) ! 0 =
   (if 0 \<in> set Ls \<and> f 0 = i \<and> 0 < length (forwards (c ! i)) then x else forwards (c ! i) ! 0)"
proof (induction Ls arbitrary: c)
  case Nil
  show ?case by simp
next
  case (Cons L Ls)
  let ?c = "c[f L := (c ! f L)\<lparr>forwards := (forwards (c ! f L))[L := x]\<rparr>]"
  from Cons.prems have "i < length ?c" by simp
  note ih = Cons.IH[OF this]
  note st = relink_step_level0[OF Cons.prems, of "f L" L x]
  note ln = relink_step_length[OF Cons.prems, of "f L" L x]
  show ?case
  proof (cases "L = 0 \<and> f L = i \<and> 0 < length (forwards (c ! i))")
    case True
    with st have "forwards (?c ! i) ! 0 = x" by auto
    with ih True show ?thesis by auto
  next
    case False
    with st have "forwards (?c ! i) ! 0 = forwards (c ! i) ! 0" by auto
    with ih ln False show ?thesis by auto
  qed
qed


lemma relink_key:
  "i < length c \<Longrightarrow>
   key (fold (\<lambda>L c'. c'[f L := (c' ! f L)\<lparr>forwards := g L c'\<rparr>]) Ls c ! i) = key (c ! i)"
proof -
  assume i: "i < length c"
  let ?c = "fold (\<lambda>L c'. c'[f L := (c' ! f L)\<lparr>forwards := g L c'\<rparr>]) Ls c"
  have m: "map key ?c = map key c" by (rule map_key_relink)
  then have "length (map key ?c) = length (map key c)" by (simp only:)
  then have "length ?c = length c" by (simp only: length_map)
  with i have "key (?c ! i) = map key ?c ! i" by simp
  also have "\<dots> = map key c ! i" by (simp only: m)
  also from i have "\<dots> = key (c ! i)" by simp
  finally show ?thesis .
qed




lemma locate_level_unfold:
  "locate_level c k L i = i \<or>
   (\<exists>j. i < length c \<and> L < length (forwards (c ! i)) \<and> forwards (c ! i) ! L = At j \<and>
        i < j \<and> Suc j < length c \<and> key (c ! j) \<le> k \<and>
        locate_level c k L i = locate_level c k L j)"
  by (subst (1 2) locate_level.simps) (simp split: iter.splits)

lemma locate_level_key:
  "i = 0 \<or> key (c ! i) \<le> k \<Longrightarrow>
   locate_level c k L i = 0 \<or> key (c ! locate_level c k L i) \<le> k"
proof (induction c k L i rule: locate_level.induct)
  case (1 c k L i)
  from locate_level_unfold[of c k L i] show ?case
  proof (elim disjE exE conjE)
    assume "locate_level c k L i = i"
    with "1.prems" show ?thesis by simp
  next
    fix j
    assume a: "i < length c" "L < length (forwards (c ! i))" "forwards (c ! i) ! L = At j"
      "i < j" "Suc j < length c" "key (c ! j) \<le> k"
      and e: "locate_level c k L i = locate_level c k L j"
    from a have "j = 0 \<or> key (c ! j) \<le> k" by simp
    from "1.IH"[OF _ a(3) _ this] a have
      "locate_level c k L j = 0 \<or> key (c ! locate_level c k L j) \<le> k" by simp
    with e show ?thesis by simp
  qed
qed

lemma locate_level_stop:
  assumes o: "ordered s"
  shows "Suc i < length (cont s) \<Longrightarrow>
     \<not> (Suc (Suc (locate_level (cont s) k 0 i)) < length (cont s) \<and>
        key (cont s ! Suc (locate_level (cont s) k 0 i)) \<le> k)"
proof (induction "cont s" k "0::nat" i rule: locate_level.induct)
  case (1 k i)
  from orderedD_level0[OF o "1.prems"] have f: "forwards (cont s ! i) ! 0 = At (Suc i)"
    "0 < length (forwards (cont s ! i))" .
  show ?case
  proof (cases "Suc (Suc i) < length (cont s) \<and> key (cont s ! Suc i) \<le> k")
    case True
    with "1.prems" f have "locate_level (cont s) k 0 i = locate_level (cont s) k 0 (Suc i)"
      by (subst locate_level.simps) simp
    moreover from "1.hyps"[of "Suc i"] "1.prems" f True
    have "\<not> (Suc (Suc (locate_level (cont s) k 0 (Suc i))) < length (cont s) \<and>
        key (cont s ! Suc (locate_level (cont s) k 0 (Suc i))) \<le> k)"
      by simp
    ultimately show ?thesis by simp
  next
    case False
    with "1.prems" f have "locate_level (cont s) k 0 i = i"
      by (subst locate_level.simps) auto
    with False show ?thesis by simp
  qed
qed

lemma locate_path_last_props:
  assumes o: "ordered s"
  shows "Suc i < length (cont s) \<Longrightarrow> i = 0 \<or> key (cont s ! i) \<le> k \<Longrightarrow>
     Suc (last (locate_path (cont s) k (Ls @ [0]) i)) < length (cont s) \<and>
     (last (locate_path (cont s) k (Ls @ [0]) i) = 0 \<or>
      key (cont s ! last (locate_path (cont s) k (Ls @ [0]) i)) \<le> k) \<and>
     \<not> (Suc (Suc (last (locate_path (cont s) k (Ls @ [0]) i))) < length (cont s) \<and>
        key (cont s ! Suc (last (locate_path (cont s) k (Ls @ [0]) i))) \<le> k)"
proof (induction Ls arbitrary: i)
  case Nil
  with locate_level_range[of i "cont s" k 0] locate_level_key[of i "cont s" k 0]
    locate_level_stop[OF o, of i k]
  show ?case by (simp add: Let_def)
next
  case (Cons L Ls)
  from locate_level_range[OF Cons.prems(1), of k L] locate_level_key[OF Cons.prems(2), of L]
  have "Suc (locate_level (cont s) k L i) < length (cont s)"
    "locate_level (cont s) k L i = 0 \<or> key (cont s ! locate_level (cont s) k L i) \<le> k"
    by simp_all
  from Cons.IH[OF this] show ?case
    by (simp add: Let_def)
qed

lemma list_insert_nth:
  assumes "q \<le> length c" "i \<le> length c"
  shows "list_insert c (At q) n ! i =
    (if i < q then shift_node q (c ! i)
     else if i = q then shift_node q n
     else shift_node q (c ! (i - 1)))"
  using assms
  by (auto simp: list_insert_def Let_def nth_append nth_Cons' min_def)

lemma length_list_insert [simp]: "q \<le> length c \<Longrightarrow> length (list_insert c (At q) n) = Suc (length c)"
  by (simp add: list_insert_def Let_def)




lemma nth_update_vals [simp]:
  "forwards (c[p := (c ! p)\<lparr>vals := x\<rparr>] ! i) = forwards (c ! i)"
  "key (c[p := (c ! p)\<lparr>vals := x\<rparr>] ! i) = key (c ! i)"
  by (cases "p < length c"; cases "i = p"; simp add: list_update_beyond)+

lemma shift_node_simps [simp]:
  "key (shift_node q n) = key n"
  "vals (shift_node q n) = vals n"
  "forwards (shift_node q n) = map (shift_iter q) (forwards n)"
  by (simp_all add: shift_node_def)

lemma list_insert_nth_before:
  "q \<le> length c \<Longrightarrow> i < q \<Longrightarrow> list_insert c (At q) n ! i = shift_node q (c ! i)"
  by (simp add: list_insert_nth)

lemma list_insert_nth_at:
  "q \<le> length c \<Longrightarrow> list_insert c (At q) n ! q = shift_node q n"
  by (simp add: list_insert_nth)

lemma list_insert_nth_after:
  "q < i \<Longrightarrow> i \<le> length c \<Longrightarrow> list_insert c (At q) n ! i = shift_node q (c ! (i - 1))"
  by (simp add: list_insert_nth)

text \<open>The new list after a splice behind position \<open>p\<close> and the relinking.\<close>

lemma spliced_ordered:
  assumes m: "0 < m" and sp: "Suc p < length c"
    and sz': "\<forall>i<length c. length (forwards (c ! i)) = m"
    and l0': "\<forall>i. Suc i < length c \<longrightarrow> forwards (c ! i) ! 0 = At (Suc i)"
    and nw: "length (forwards new) = m" "forwards new ! 0 = forwards (c ! p) ! 0"
    and lvl: "0 \<in> set Ls" and p0: "f 0 = p"
    and c2: "c2 = fold (\<lambda>L c'. c'[f L := (c' ! f L)\<lparr>forwards := (forwards (c' ! f L))[L := At (Suc p)]\<rparr>])
                Ls (list_insert c (At (Suc p)) new)"
  shows "length c2 = Suc (length c)"
    and "\<And>i. i \<le> length c \<Longrightarrow> length (forwards (c2 ! i)) = m"
    and "\<And>i. i < length c \<Longrightarrow> forwards (c2 ! i) ! 0 = At (Suc i)"
    and "\<And>i. i \<le> p \<Longrightarrow> key (c2 ! i) = key (c ! i)"
    and "key (c2 ! Suc p) = key new"
    and "\<And>i. Suc p < i \<Longrightarrow> i \<le> length c \<Longrightarrow> key (c2 ! i) = key (c ! (i - 1))"
proof -
  let ?c1 = "list_insert c (At (Suc p)) new"
  from sz' have sz: "length (forwards (c ! i)) = m" if "i < length c" for i
    using that by simp
  from l0' have l0: "forwards (c ! i) ! 0 = At (Suc i)" if "Suc i < length c" for i
    using that by simp
  from sp have q: "Suc p \<le> length c" by simp
  then have len1: "length ?c1 = Suc (length c)" by simp
  then show len2: "length c2 = Suc (length c)" by (simp add: c2)
  have rk: "key (c2 ! i) = key (?c1 ! i)" if "i \<le> length c" for i
  proof -
    from that len1 have "i < length ?c1" by simp
    then show ?thesis unfolding c2 by (rule relink_key)
  qed
  have rl: "length (forwards (c2 ! i)) = length (forwards (?c1 ! i))" if "i \<le> length c" for i
  proof -
    from that len1 have "i < length ?c1" by simp
    then show ?thesis unfolding c2 by (rule relink_forwards_length)
  qed
  have r0: "forwards (c2 ! i) ! 0 =
      (if p = i \<and> 0 < length (forwards (?c1 ! i)) then At (Suc p) else forwards (?c1 ! i) ! 0)"
    if "i \<le> length c" for i
  proof -
    from that len1 have "i < length ?c1" by simp
    from relink_level0[OF this, of f "At (Suc p)" Ls] lvl p0 show ?thesis
      by (simp add: c2)
  qed
  show "key (c2 ! i) = key (c ! i)" if "i \<le> p" for i
  proof -
    from that sp have "i \<le> length c" "i < Suc p" by simp_all
    with rk[of i] list_insert_nth_before[OF q, of i new] show ?thesis by simp
  qed
  show "key (c2 ! Suc p) = key new"
    using rk[OF q] list_insert_nth_at[OF q, of new] by simp
  show "key (c2 ! i) = key (c ! (i - 1))" if "Suc p < i" "i \<le> length c" for i
    using rk[OF that(2)] list_insert_nth_after[OF that, of new] by simp
  show "length (forwards (c2 ! i)) = m" if i: "i \<le> length c" for i
  proof -
    consider "i < Suc p" | "i = Suc p" | "Suc p < i" by linarith
    then show ?thesis
    proof cases
      case 1
      with sp have "i < length c" by simp
      from sz[OF this] rl[OF i] list_insert_nth_before[OF q 1, of new] show ?thesis by simp
    next
      case 2
      with rl[OF i] list_insert_nth_at[OF q, of new] nw show ?thesis by simp
    next
      case 3
      with i have "i - 1 < length c" by simp
      from sz[OF this] rl[OF i] list_insert_nth_after[OF 3 i, of new] show ?thesis by simp
    qed
  qed
  show "forwards (c2 ! i) ! 0 = At (Suc i)" if i: "i < length c" for i
  proof -
    from i have i': "i \<le> length c" by simp
    consider "i < p" | "i = p" | "i = Suc p" | "Suc p < i" by linarith
    then show ?thesis
    proof cases
      case 1
      with sp have a: "i < Suc p" "Suc i < length c" "i < length c" by simp_all
      from list_insert_nth_before[OF q a(1), of new] sz[OF a(3)] m l0[OF a(2)] 1
      have "forwards (?c1 ! i) ! 0 = At (Suc i)" by simp
      with r0[OF i'] 1 show ?thesis by simp
    next
      case 2
      with sp have a: "i < Suc p" "i < length c" by simp_all
      from list_insert_nth_before[OF q a(1), of new] sz[OF a(2)] m
      have "0 < length (forwards (?c1 ! i))" by simp
      with r0[OF i'] 2 show ?thesis by simp
    next
      case 3
      from sp have "p < length c" by simp
      from list_insert_nth_at[OF q, of new] nw m l0[OF sp] sz[OF this]
      have "forwards (?c1 ! Suc p) ! 0 = At (Suc (Suc p))" by simp
      with r0[OF i'] 3 show ?thesis by simp
    next
      case 4
      with i have a: "i - 1 < length c" "Suc (i - 1) < length c" by simp_all
      from list_insert_nth_after[OF 4 i', of new] sz[OF a(1)] m l0[OF a(2)] 4
      have "forwards (?c1 ! i) ! 0 = At (Suc i)" by simp
      with r0[OF i'] 4 show ?thesis by simp
    qed
  qed
qed

lemma insert_preserves_ordered:
  assumes o: "ordered s"
  shows "ordered (insert_sl h d v s)"
proof -
  define c where "c = cont s"
  define k where "k = h v"
  define preds where "preds = rev (locate_path c k (rev [0..<max_lv s]) 0)"
  define p where "p = (if preds = [] then 0 else preds ! 0)"
  from o have m: "0 < max_lv s" and len: "2 \<le> length c"
    by (simp_all add: ordered_def c_def)
  have sz: "length (forwards (c ! i)) = max_lv s" if "i < length c" for i
    using o that by (simp add: ordered_def list_all_length c_def)
  have l0: "forwards (c ! i) ! 0 = At (Suc i)" if "Suc i < length c" for i
    using orderedD_level0(1)[OF o, of i] that by (simp add: c_def)
  have srt: "key (c ! i) < key (c ! j)" if "0 < i" "i < j" "Suc j < length c" for i j
    using orderedD_keys[OF o, of i j] that by (simp add: c_def)
  from m have ne: "preds \<noteq> []" by (simp add: preds_def)
  then have p0: "preds ! 0 = p" by (simp add: p_def)
  from m have "preds ! 0 = last (locate_path c k (rev [Suc 0..<max_lv s] @ [0]) 0)"
    by (simp add: preds_def rev_upt_0 hd_rev flip: hd_conv_nth)
  with p0 have p: "last (locate_path c k (rev [Suc 0..<max_lv s] @ [0]) 0) = p"
    by simp
  from len have "Suc 0 < length (cont s)" by (simp add: c_def)
  from locate_path_last_props[OF o this, of k "rev [Suc 0..<max_lv s]"]
  have sp: "Suc p < length c" and pk: "p = 0 \<or> key (c ! p) \<le> k"
    and stop: "\<not> (Suc (Suc p) < length c \<and> key (c ! Suc p) \<le> k)"
    unfolding c_def[symmetric] p by simp_all
  have ins: "insert_sl h d v s =
      (if 0 < p \<and> key (c ! p) = k
       then s\<lparr>cont := c[p := (c ! p)\<lparr>vals := add_mset v (vals (c ! p))\<rparr>]\<rparr>
       else s\<lparr>cont :=
         fold (\<lambda>L c'. c'[preds ! L := (c' ! (preds ! L))
                 \<lparr>forwards := (forwards (c' ! (preds ! L)))[L := At (Suc p)]\<rparr>])
           [0..<min (max_lv s) (Suc d)]
           (list_insert c (list_next c (At p))
              \<lparr>key = k, vals = {#v#},
                forwards = map (\<lambda>L. forwards (c ! (preds ! L)) ! L) [0..<max_lv s]\<rparr>)\<rparr>)"
    unfolding insert_sl_def Let_def p_def preds_def k_def c_def by (rule refl)
  show ?thesis
  proof (cases "0 < p \<and> key (c ! p) = k")
    case True
    then have "insert_sl h d v s = s\<lparr>cont := c[p := (c ! p)\<lparr>vals := add_mset v (vals (c ! p))\<rparr>]\<rparr>"
      by (simp add: ins)
    moreover have "ordered (s\<lparr>cont := c[p := (c ! p)\<lparr>vals := add_mset v (vals (c ! p))\<rparr>]\<rparr>)"
      unfolding ordered_iff using m len sz l0 srt by simp
    ultimately show ?thesis by simp
  next
    case False
    with pk have pk': "p = 0 \<or> key (c ! p) < k" by auto
    define new where "new = \<lparr>key = k, vals = {#v#},
      forwards = map (\<lambda>L. forwards (c ! (preds ! L)) ! L) [0..<max_lv s]\<rparr>"
    define c2 where "c2 = fold (\<lambda>L c'. c'[preds ! L := (c' ! (preds ! L))
                            \<lparr>forwards := (forwards (c' ! (preds ! L)))[L := At (Suc p)]\<rparr>])
                       [0..<min (max_lv s) (Suc d)] (list_insert c (At (Suc p)) new)"
    from sp have "list_next c (At p) = At (Suc p)" by simp
    with False have e: "insert_sl h d v s = s\<lparr>cont := c2\<rparr>"
      unfolding c2_def new_def by (auto simp add: ins)
    from m have lvl: "0 \<in> set [0..<min (max_lv s) (Suc d)]" by simp
    from m p0 have nw: "length (forwards new) = max_lv s" "forwards new ! 0 = forwards (c ! p) ! 0"
      by (simp_all add: new_def upt_conv_Cons)
    from sz have sz': "\<forall>i<length c. length (forwards (c ! i)) = max_lv s" by simp
    from l0 have l0': "\<forall>i. Suc i < length c \<longrightarrow> forwards (c ! i) ! 0 = At (Suc i)" by simp
    note sp2 = spliced_ordered[where f = "\<lambda>L. preds ! L", OF m sp sz' l0' nw lvl p0 c2_def]
    have s2: "key (c2 ! i) < key (c2 ! j)" if "0 < i" "i < j" "j < length c" for i j
    proof -
      from that have ij: "i \<le> length c" "j \<le> length c" by simp_all
      have kn: "key new = k" by (simp add: new_def)
      consider "j < Suc p" | "i < Suc p" "j = Suc p" | "i < Suc p" "Suc p < j"
        | "i = Suc p" | "Suc p < i"
        using that by linarith
      then show ?thesis
      proof cases
        case 1
        with that sp have a: "i \<le> p" "j \<le> p" "Suc j < length c" by simp_all
        from srt[OF that(1,2) a(3)] sp2(4)[OF a(1)] sp2(4)[OF a(2)] show ?thesis by simp
      next
        case 2
        then have a: "i \<le> p" by simp
        have "key (c ! i) \<le> key (c ! p)"
        proof (cases "i = p")
          case False
          with 2 have "i < p" by simp
          from srt[OF that(1) this sp] show ?thesis by simp
        qed simp
        moreover from a that pk' have "key (c ! p) < k" by auto
        ultimately have "key (c ! i) < k" by simp
        with sp2(4)[OF a] sp2(5) kn 2 show ?thesis by simp
      next
        case 3
        with that have a: "i \<le> p" "i < j - 1" "Suc (j - 1) < length c" by simp_all
        from srt[OF that(1) a(2,3)] sp2(4)[OF a(1)] sp2(6)[OF 3(2) ij(2)] show ?thesis by simp
      next
        case 4
        with that have j: "Suc p < j" by simp
        with that have "Suc (Suc p) < length c" by simp
        with stop have "k < key (c ! Suc p)" by simp
        moreover have "key (c ! Suc p) \<le> key (c ! (j - 1))"
        proof (cases "Suc p = j - 1")
          case False
          with j have a: "Suc p < j - 1" by simp
          from that have "Suc (j - 1) < length c" by simp
          from srt[OF _ a this] show ?thesis by simp
        qed simp
        ultimately have "k < key (c ! (j - 1))" by simp
        with sp2(5) sp2(6)[OF j ij(2)] kn 4 show ?thesis by simp
      next
        case 5
        with that have a: "0 < i - 1" "i - 1 < j - 1" "Suc (j - 1) < length c" "Suc p < j"
          by simp_all
        from srt[OF a(1,2,3)] sp2(6)[OF 5 ij(1)] sp2(6)[OF a(4) ij(2)] show ?thesis by simp
      qed
    qed
    have "ordered (s\<lparr>cont := c2\<rparr>)"
      unfolding ordered_iff using m len sp2(1,2,3) s2 by (simp add: less_Suc_eq_le)
    with e show ?thesis by simp
  qed
qed

lemma insert_range_preserves_ordered:
  "ordered s \<Longrightarrow> ordered (insert_range h s xs)"
  by (induction xs arbitrary: s) (auto simp: insert_preserves_ordered)

lemma ordered_skiplist_range: "ordered (skiplist_range h xs)"
  unfolding skiplist_range_def skiplist_default_def
  by (rule insert_range_preserves_ordered) (simp add: ordered_fresh)

text \<open>
  The state \<open>scenario\<close> is what the three insertions of the specification's example build
  (keys 10, 20, 15 in this order, each node on one level), starting from the two
  sentinels with four levels.
\<close>

lemma skiplist_ctor_4:
  "(skiplist_ctor 4 (1 / 2) :: (64 word, 64 word) skiplist) =
     \<lparr>max_lv = 4, prob = 1 / 2, rl = random_level 4 (1 / 2),
      cont = [\<lparr>key = 0, vals = {#}, forwards = [At 1, At 1, At 1, At 1]\<rparr>,
              \<lparr>key = - 1, vals = {#}, forwards = [End, End, End, End]\<rparr>]\<rparr>"
  by (simp add: skiplist_ctor_def init_internally_def list_insert_def list_begin_def
      list_end_def resized_def fill_def shift_node_def numeral_eq_Suc)

text \<open>Unfolding an insertion on a concrete state.\<close>

lemmas insert_eval = insert_sl_def upt_conv_Cons locate_level.simps Let_def list_insert_def
  shift_node_def

lemma scenario_insert_10:
  "insert_sl (\<lambda>v. v) 0 10 (skiplist_ctor 4 (1 / 2) :: (64 word, 64 word) skiplist) =
     \<lparr>max_lv = 4, prob = 1 / 2, rl = random_level 4 (1 / 2),
      cont = [\<lparr>key = 0, vals = {#}, forwards = [At 1, At 2, At 2, At 2]\<rparr>,
              \<lparr>key = 10, vals = {#10#}, forwards = [At 2, At 2, At 2, At 2]\<rparr>,
              \<lparr>key = - 1, vals = {#}, forwards = [End, End, End, End]\<rparr>]\<rparr>"
  unfolding skiplist_ctor_4 by (simp add: insert_eval)

lemma scenario_insert_20:
  "insert_sl (\<lambda>v. v) 0 20
     \<lparr>max_lv = 4, prob = 1 / 2, rl = random_level 4 (1 / 2),
      cont = [\<lparr>key = 0, vals = {#}, forwards = [At 1, At 2, At 2, At 2]\<rparr>,
              \<lparr>key = 10, vals = {#10#}, forwards = [At 2, At 2, At 2, At 2]\<rparr>,
              \<lparr>key = - 1 :: 64 word, vals = {#}, forwards = [End, End, End, End]\<rparr>]\<rparr> =
     \<lparr>max_lv = 4, prob = 1 / 2, rl = random_level 4 (1 / 2),
      cont = [\<lparr>key = 0, vals = {#}, forwards = [At 1, At 3, At 3, At 3]\<rparr>,
              \<lparr>key = 10, vals = {#10#}, forwards = [At 2, At 3, At 3, At 3]\<rparr>,
              \<lparr>key = 20, vals = {#20 :: 64 word#}, forwards = [At 3, At 3, At 3, At 3]\<rparr>,
              \<lparr>key = - 1, vals = {#}, forwards = [End, End, End, End]\<rparr>]\<rparr>"
  by (simp add: insert_eval)

lemma scenario_insert_15:
  "insert_sl (\<lambda>v. v) 0 15
     \<lparr>max_lv = 4, prob = 1 / 2, rl = random_level 4 (1 / 2),
      cont = [\<lparr>key = 0, vals = {#}, forwards = [At 1, At 3, At 3, At 3]\<rparr>,
              \<lparr>key = 10, vals = {#10#}, forwards = [At 2, At 3, At 3, At 3]\<rparr>,
              \<lparr>key = 20, vals = {#20 :: 64 word#}, forwards = [At 3, At 3, At 3, At 3]\<rparr>,
              \<lparr>key = - 1 :: 64 word, vals = {#}, forwards = [End, End, End, End]\<rparr>]\<rparr> =
     scenario"
  by (simp add: insert_eval scenario_def)

lemma scenario_by_insertion:
  "insert_range (\<lambda>v. v) (skiplist_ctor 4 (1 / 2)) [(0, 10), (0, 20), (0, 15)] = scenario"
  by (simp only: insert_range.simps scenario_insert_10 scenario_insert_20 scenario_insert_15)

subsection \<open>Insertion keeps the nodes and their keys\<close>

text \<open>
  An insertion either adds a value to a node or splices one node in, at some position
  \<open>q\<close>: every node that was there is still there, at its index or one further, with
  the key it had. The constructor's loop of insertions composes these shifts into a
  strictly increasing map of positions.
\<close>

lemma list_insert_End: "list_insert c End n = list_insert c (At (length c)) n"
  by (simp add: list_insert_def)

lemma insert_sl_keeps_keys:
  "\<exists>q. \<forall>i<length (cont s).
     (if q \<le> i then Suc i else i) < length (cont (insert_sl h d v s)) \<and>
     key (cont (insert_sl h d v s) ! (if q \<le> i then Suc i else i)) = key (cont s ! i)"
proof -
  define c where "c = cont s"
  define k where "k = h v"
  define preds where "preds = rev (locate_path c k (rev [0..<max_lv s]) 0)"
  define p where "p = (if preds = [] then 0 else preds ! 0)"
  define new where "new = \<lparr>key = k, vals = {#v#},
      forwards = map (\<lambda>L. forwards (c ! (preds ! L)) ! L) [0..<max_lv s]\<rparr>"
  have ins: "insert_sl h d v s =
      (if 0 < p \<and> key (c ! p) = k
       then s\<lparr>cont := c[p := (c ! p)\<lparr>vals := add_mset v (vals (c ! p))\<rparr>]\<rparr>
       else s\<lparr>cont :=
         fold (\<lambda>L c'. c'[preds ! L := (c' ! (preds ! L))
                 \<lparr>forwards := (forwards (c' ! (preds ! L)))[L := At (Suc p)]\<rparr>])
           [0..<min (max_lv s) (Suc d)]
           (list_insert c (list_next c (At p)) new)\<rparr>)"
    unfolding insert_sl_def Let_def p_def preds_def k_def c_def new_def by (rule refl)
  show ?thesis
  proof (cases "0 < p \<and> key (c ! p) = k")
    case True
    then have "cont (insert_sl h d v s) = c[p := (c ! p)\<lparr>vals := add_mset v (vals (c ! p))\<rparr>]"
      by (simp add: ins)
    then have "\<forall>i<length (cont s).
        (if length c \<le> i then Suc i else i) < length (cont (insert_sl h d v s)) \<and>
        key (cont (insert_sl h d v s) ! (if length c \<le> i then Suc i else i)) = key (cont s ! i)"
      by (simp add: c_def)
    then show ?thesis by (rule exI)
  next
    case False
    obtain q where q: "q \<le> length c" "list_insert c (list_next c (At p)) new = list_insert c (At q) new"
    proof (cases "Suc p < length c")
      case True
      then show ?thesis by (intro that[of "Suc p"]) simp_all
    next
      case False
      then show ?thesis by (intro that[of "length c"]) (simp_all add: list_insert_End)
    qed
    let ?c1 = "list_insert c (At q) new"
    let ?c2 = "fold (\<lambda>L c'. c'[preds ! L := (c' ! (preds ! L))
                 \<lparr>forwards := (forwards (c' ! (preds ! L)))[L := At (Suc p)]\<rparr>])
           [0..<min (max_lv s) (Suc d)] ?c1"
    from False q have e: "cont (insert_sl h d v s) = ?c2"
      by (auto simp add: ins)
    from q have len1: "length ?c1 = Suc (length c)" by simp
    then have len2: "length ?c2 = Suc (length c)" by simp
    have "(if q \<le> i then Suc i else i) < length ?c2 \<and>
        key (?c2 ! (if q \<le> i then Suc i else i)) = key (c ! i)" if i: "i < length c" for i
    proof (cases "q \<le> i")
      case True
      with i len1 have "Suc i < length ?c1" "q < Suc i" "Suc i \<le> length c" by simp_all
      from relink_key[OF this(1)] list_insert_nth_after[OF this(2,3), of new] True len2 i
      show ?thesis by simp
    next
      case False
      with i len1 have "i < length ?c1" "i < q" by simp_all
      from relink_key[OF this(1)] list_insert_nth_before[OF q(1) this(2), of new] False len2 i
      show ?thesis by simp
    qed
    then have "\<forall>i<length (cont s).
        (if q \<le> i then Suc i else i) < length (cont (insert_sl h d v s)) \<and>
        key (cont (insert_sl h d v s) ! (if q \<le> i then Suc i else i)) = key (cont s ! i)"
      by (simp add: e c_def)
    then show ?thesis by (rule exI)
  qed
qed

lemma insert_range_keeps_keys:
  "\<exists>f. (\<forall>i j. i < j \<longrightarrow> f i < f j) \<and>
       (\<forall>i<length (cont s).
          f i < length (cont (insert_range h s xs)) \<and>
          key (cont (insert_range h s xs) ! f i) = key (cont s ! i))"
proof (induction xs arbitrary: s)
  case Nil
  show ?case by (intro exI[of _ id]) simp
next
  case (Cons x xs)
  obtain d v where x: "x = (d, v)" by (cases x)
  let ?s1 = "insert_sl h d v s"
  from insert_sl_keeps_keys[of s h d v] obtain q where
    q': "\<forall>i<length (cont s).
      (if q \<le> i then Suc i else i) < length (cont ?s1) \<and>
      key (cont ?s1 ! (if q \<le> i then Suc i else i)) = key (cont s ! i)" ..
  then have q: "(if q \<le> i then Suc i else i) < length (cont ?s1) \<and>
      key (cont ?s1 ! (if q \<le> i then Suc i else i)) = key (cont s ! i)"
    if "i < length (cont s)" for i
    using that by simp
  from Cons.IH[of ?s1] obtain g where
    g': "(\<forall>i j. i < j \<longrightarrow> g i < g j) \<and>
       (\<forall>i<length (cont ?s1).
          g i < length (cont (insert_range h ?s1 xs)) \<and>
          key (cont (insert_range h ?s1 xs) ! g i) = key (cont ?s1 ! i))" ..
  then have g: "\<And>i j. i < j \<Longrightarrow> g i < g j"
      "\<And>i. i < length (cont ?s1) \<Longrightarrow>
         g i < length (cont (insert_range h ?s1 xs)) \<and>
         key (cont (insert_range h ?s1 xs) ! g i) = key (cont ?s1 ! i)"
    by simp_all
  let ?f = "\<lambda>i. g (if q \<le> i then Suc i else i)"
  have mono: "\<forall>i j. i < j \<longrightarrow> ?f i < ?f j"
  proof (intro allI impI)
    fix i j :: nat
    assume "i < j"
    then have "(if q \<le> i then Suc i else i) < (if q \<le> j then Suc j else j)" by simp
    then show "?f i < ?f j" by (rule g(1))
  qed
  have keep: "\<forall>i<length (cont s).
      ?f i < length (cont (insert_range h s (x # xs))) \<and>
      key (cont (insert_range h s (x # xs)) ! ?f i) = key (cont s ! i)"
  proof (intro allI impI)
    fix i
    assume "i < length (cont s)"
    from q[OF this] g(2)[of "if q \<le> i then Suc i else i"]
    show "?f i < length (cont (insert_range h s (x # xs))) \<and>
      key (cont (insert_range h s (x # xs)) ! ?f i) = key (cont s ! i)"
      by (simp add: x)
  qed
  show ?case by (intro exI[of _ ?f] conjI mono keep)
qed

section \<open>The claims\<close>

text \<open>
  C1, at a failing input: on the default-constructed skiplist the descent for the key 5
  ends on the tail sentinel, whose key is greater than 5, although the head is the node
  with the greatest key not above 5.
\<close>

theorem find_helper_overshoots:
  "find_helper (skiplist_default :: (64 word, nat) skiplist) 5 = Some (Inr (At 1), skiplist_default) \<and>
   key (cont (skiplist_default :: (64 word, nat) skiplist) ! 1) = 18446744073709551615 \<and>
   \<not> key (cont (skiplist_default :: (64 word, nat) skiplist) ! 1) \<le> 5 \<and>
   key (cont (skiplist_default :: (64 word, nat) skiplist) ! 0) = 0"
  by (simp add: skiplist_default_def find_helper_fresh cont_skiplist_ctor
      word_order.extremum_unique)

text \<open>
  The same defect on a list with interior nodes, the one the specification's example
  builds (\<open>scenario_by_insertion\<close>): the descent for the key 20, which the node at
  position 3 holds, runs past that node to the tail, and \<open>find\<close> reports the end
  iterator.
\<close>

lemma find_misses_existing_key:
  "key (cont scenario ! 3) = 20 \<and>
   find_helper scenario 20 = Some (Inr (At 4), scenario) \<and>
   find_sl (\<lambda>v. v) scenario 20 = Some (Inr End, scenario)"
  by (simp add: find_helper_scenario_20 find_sl_scenario_20) (simp add: scenario_def)

text \<open>
  C2 as stated fails: on the default-constructed skiplist, \<open>find\<close> of a value whose hash
  is the greatest key returns the iterator to the tail sentinel, not the end iterator.
\<close>

theorem find_returns_tail_sentinel:
  "find_sl (\<lambda>v. v) (skiplist_default :: (64 word, 64 word) skiplist) (- 1) =
     Some (Inr (At 1), skiplist_default) \<and>
   length (cont (skiplist_default :: (64 word, 64 word) skiplist)) = 2 \<and>
   At 1 \<noteq> end_sl (skiplist_default :: (64 word, 64 word) skiplist)"
  by (simp add: find_sl_def skiplist_default_def find_helper_fresh cont_skiplist_ctor
      deref_def end_sl_def list_end_def)

text \<open>
  C2, amended: on a well-formed state, \<open>find(v)\<close> returns the end iterator or an iterator
  to a node of the list whose key is \<open>hash(v)\<close>; that node may be a sentinel.
\<close>

theorem find_returns_end_or_matching_key:
  assumes "links_forward (cont s)" and "well_sized s"
  shows "\<exists>r. find_sl h s v = Some (Inr r, s) \<and>
           (r = end_sl s \<or> (\<exists>j. r = At j \<and> j < length (cont s) \<and> key (cont s ! j) = h v))"
  using find_sl_valid[OF assms] by (simp add: end_sl_def list_end_def)

theorem find_returns_end_or_matching_key_witness:
  "links_forward (cont scenario) \<and> well_sized scenario \<and>
   (\<exists>r. find_sl (\<lambda>v. v) scenario 15 = Some (Inr r, scenario) \<and>
      (r = end_sl scenario \<or>
       (\<exists>j. r = At j \<and> j < length (cont scenario) \<and> key (cont scenario ! j) = 15)))"
  using find_returns_end_or_matching_key[OF links_forward_scenario well_sized_scenario,
      of "\<lambda>v. v" 15]
    links_forward_scenario well_sized_scenario
  by blast

text \<open>
  C3: \<open>insert(value)\<close> computes \<open>key = hash(value)\<close>; when an interior node with that key
  exists, the value joins that node's multiset and nothing else changes; otherwise a new
  node with the key and the value is spliced in between the sentinels. Construction from
  a sequence is the insertion of its elements, one after the other in the order of the
  sequence, into the default-constructed skiplist.
\<close>

theorem insert_and_bulk_construction:
  assumes "ordered s"
  shows "(0 < p \<and> Suc p < length (cont s) \<and> key (cont s ! p) = h v \<longrightarrow>
            insert_sl h d v s =
              s\<lparr>cont := (cont s)[p := (cont s ! p)\<lparr>vals := add_mset v (vals (cont s ! p))\<rparr>]\<rparr>) \<and>
         (h v \<notin> set (map key (butlast (tl (cont s)))) \<longrightarrow>
            (\<exists>q. 0 < q \<and> q < length (cont s) \<and>
               map key (cont (insert_sl h d v s)) =
                 take q (map key (cont s)) @ h v # drop q (map key (cont s)) \<and>
               map vals (cont (insert_sl h d v s)) =
                 take q (map vals (cont s)) @ {#v#} # drop q (map vals (cont s)))) \<and>
         skiplist_range h xs = foldl (\<lambda>s (d, v). insert_sl h d v s) skiplist_default xs \<and>
         skiplist_init_list h xs = skiplist_range h xs"
proof (intro conjI impI)
  assume "0 < p \<and> Suc p < length (cont s) \<and> key (cont s ! p) = h v"
  with insert_existing[OF assms, of p h v d]
  show "insert_sl h d v s =
      s\<lparr>cont := (cont s)[p := (cont s ! p)\<lparr>vals := add_mset v (vals (cont s ! p))\<rparr>]\<rparr>"
    by simp
next
  assume a: "h v \<notin> set (map key (butlast (tl (cont s))))"
  from assms have "2 \<le> length (cont s)" by (simp add: ordered_def)
  from insert_absent[where h = h and v = v, OF this a]
  show "\<exists>q. 0 < q \<and> q < length (cont s) \<and>
      map key (cont (insert_sl h d v s)) =
        take q (map key (cont s)) @ h v # drop q (map key (cont s)) \<and>
      map vals (cont (insert_sl h d v s)) =
        take q (map vals (cont s)) @ {#v#} # drop q (map vals (cont s))" .
next
  show "skiplist_range h xs = foldl (\<lambda>s (d, v). insert_sl h d v s) skiplist_default xs"
    by (simp add: skiplist_range_def insert_range_foldl)
  show "skiplist_init_list h xs = skiplist_range h xs"
    by (simp add: skiplist_init_list_def)
qed

theorem insert_and_bulk_construction_witness:
  "ordered scenario \<and>
   map vals (cont (insert_sl (\<lambda>v. v) 0 15 scenario)) = [{#}, {#10#}, {#15, 15#}, {#20#}, {#}] \<and>
   map key (cont (insert_sl (\<lambda>v. v) 0 15 scenario)) = [0, 10, 15, 20, - 1] \<and>
   map forwards (cont (insert_sl (\<lambda>v. v) 0 15 scenario)) = map forwards (cont scenario) \<and>
   (\<exists>q. 0 < q \<and> q < 5 \<and>
      map key (cont (insert_sl (\<lambda>v. v) 0 17 scenario)) =
        take q [0, 10, 15, 20, - 1] @ 17 # drop q [0, 10, 15, 20, - 1]) \<and>
   skiplist_init_list (\<lambda>v. v) [(0, 10), (1, 20 :: 64 word)] =
     insert_sl (\<lambda>v. v) 1 20 (insert_sl (\<lambda>v. v) 0 10 skiplist_default)"
proof -
  have k: "0 < (2::nat) \<and> Suc 2 < length (cont scenario) \<and> key (cont scenario ! 2) = 15"
    by (simp add: scenario_def)
  have a: "(17 :: 64 word) \<notin> set (map key (butlast (tl (cont scenario))))"
    by (simp add: scenario_def)
  from insert_and_bulk_construction[OF ordered_scenario, of 2 "\<lambda>v. v" 15 0 "[]"] k
  have e: "insert_sl (\<lambda>v. v) 0 15 scenario =
      scenario\<lparr>cont := (cont scenario)[2 := (cont scenario ! 2)
        \<lparr>vals := add_mset 15 (vals (cont scenario ! 2))\<rparr>]\<rparr>"
    by blast
  from insert_and_bulk_construction[OF ordered_scenario, of 2 "\<lambda>v. v" 17 0
      "[(0, 10), (1, 20)]"] a
  have q: "\<exists>q. 0 < q \<and> q < length (cont scenario) \<and>
      map key (cont (insert_sl (\<lambda>v. v) 0 17 scenario)) =
        take q (map key (cont scenario)) @ 17 # drop q (map key (cont scenario))"
    and b: "skiplist_init_list (\<lambda>v. v) [(0, 10), (1, 20 :: 64 word)] =
      foldl (\<lambda>s (d, v). insert_sl (\<lambda>v. v) d v s) skiplist_default [(0, 10), (1, 20)]"
    by auto
  have len: "length (cont scenario) = 5"
    and keys: "map key (cont scenario) = [0, 10, 15, 20, - 1]"
    by (simp_all add: scenario_def)
  from q have q': "\<exists>q. 0 < q \<and> q < 5 \<and>
      map key (cont (insert_sl (\<lambda>v. v) 0 17 scenario)) =
        take q [0, 10, 15, 20, - 1] @ 17 # drop q [0, 10, 15, 20, - 1]"
    by (simp only: len keys)
  have v: "map vals (cont (insert_sl (\<lambda>v. v) 0 15 scenario)) = [{#}, {#10#}, {#15, 15#}, {#20#}, {#}]"
    "map key (cont (insert_sl (\<lambda>v. v) 0 15 scenario)) = [0, 10, 15, 20, - 1]"
    "map forwards (cont (insert_sl (\<lambda>v. v) 0 15 scenario)) = map forwards (cont scenario)"
    unfolding e by (simp_all add: scenario_def)
  from ordered_scenario v q' b show ?thesis
    by simp
qed







text \<open>
  C6: immediately after construction, default or with explicit arguments, \<open>size()\<close> is 0
  and \<open>empty()\<close> holds, and the list consists of exactly two sentinels: a head with the
  least key, whose \<open>max_level\<close> forward entries all point to the tail directly after it,
  and a tail with the greatest key, whose \<open>max_level\<close> forward entries are all the end
  marker.
\<close>

theorem construction_two_sentinels:
  "size_sl (skiplist_ctor m pr :: ('w::len word, 'v) skiplist) = 0 \<and>
   empty_sl (skiplist_ctor m pr :: ('w word, 'v) skiplist) \<and>
   cont (skiplist_ctor m pr :: ('w word, 'v) skiplist) =
     [\<lparr>key = 0, vals = {#}, forwards = replicate m (At 1)\<rparr>,
      \<lparr>key = - 1, vals = {#}, forwards = replicate m End\<rparr>] \<and>
   list_next (cont (skiplist_ctor m pr :: ('w word, 'v) skiplist)) (At 0) = At 1 \<and>
   (skiplist_default :: ('w word, 'v) skiplist) = skiplist_ctor 16 (1 / 2) \<and>
   (\<forall>k :: 'w word. 0 \<le> k \<and> k \<le> - 1)"
  by (simp add: size_sl_def empty_sl_def cont_skiplist_ctor skiplist_default_def)

theorem construction_two_sentinels_witness:
  "size_sl (skiplist_default :: (64 word, nat) skiplist) = 0 \<and>
   empty_sl (skiplist_default :: (64 word, nat) skiplist) \<and>
   map key (cont (skiplist_default :: (64 word, nat) skiplist)) = [0, 18446744073709551615] \<and>
   map forwards (cont (skiplist_default :: (64 word, nat) skiplist)) =
     [replicate 16 (At 1), replicate 16 End]"
  using construction_two_sentinels[of 16 "1 / 2", where ?'w = 64 and ?'v = nat]
  by (simp add: skiplist_default_def)

text \<open>
  C7: on every state in which each forward link points to a node strictly later in the
  list or is the end marker, \<open>find_helper\<close> and \<open>find\<close> return; when moreover the list
  is not empty and every node carries \<open>max_level\<close> forward entries, they return an
  iterator and no undefined behaviour is met.
\<close>

theorem find_terminates:
  assumes "links_forward (cont s)"
  shows "(\<exists>r. find_helper s k = Some (r, s)) \<and>
         (\<exists>r. find_sl h s v = Some (r, s)) \<and>
         (well_sized s \<longrightarrow>
            (\<exists>it. find_helper s k = Some (Inr it, s)) \<and>
            (\<exists>it. find_sl h s v = Some (Inr it, s)))"
proof (intro conjI impI)
  show "\<exists>r. find_helper s k = Some (r, s)"
    unfolding find_helper_def by (rule find_levels_terminates[OF assms])
  show "\<exists>r. find_sl h s v = Some (r, s)"
    by (rule find_sl_terminates[OF assms])
next
  assume ws: "well_sized s"
  from find_helper_valid[OF assms ws] show "\<exists>it. find_helper s k = Some (Inr it, s)"
    by blast
  from find_sl_valid[OF assms ws] show "\<exists>it. find_sl h s v = Some (Inr it, s)"
    by blast
qed

theorem find_terminates_witness:
  "links_forward (cont scenario) \<and> well_sized scenario \<and>
   (\<exists>r. find_helper scenario 15 = Some (r, scenario)) \<and>
   (\<exists>it. find_sl (\<lambda>v. v) scenario 15 = Some (Inr it, scenario))"
  using find_terminates[OF links_forward_scenario, of 15 "\<lambda>v. v" 15]
    links_forward_scenario well_sized_scenario
  by blast

text \<open>
  C9: a call of \<open>find\<close> has no side effect: when it returns, the state (the node
  sequence with every key, values multiset and forward link, and the configuration) is
  the one it was called on.
\<close>

theorem find_no_side_effects:
  "find_sl h s v = Some (r, s') \<Longrightarrow>
     s' = s \<and> cont s' = cont s \<and> map key (cont s') = map key (cont s) \<and>
     map vals (cont s') = map vals (cont s) \<and> map forwards (cont s') = map forwards (cont s)"
  by (drule find_sl_state) simp

theorem find_no_side_effects_witness:
  "\<exists>r s'. find_sl (\<lambda>v. v) scenario 20 = Some (r, s') \<and> s' = scenario \<and>
     map key (cont s') = map key (cont scenario)"
  using find_no_side_effects[OF find_sl_scenario_20] find_sl_scenario_20
  by blast

text \<open>
  C10: no operation changes the key of a node that exists. \<open>init_internally\<close>, the only
  function of the source that writes to the list, puts the two sentinels in front of the
  nodes already there and leaves the keys and the values of those as they are, also as a
  call that may throw; a call of \<open>find\<close> returns the state it was given; \<open>size\<close>,
  \<open>empty\<close>, \<open>begin\<close> and \<open>end\<close> only read. An insertion keeps every node with its
  key, at its position or one further (past the place \<open>q\<close> of the new node), and so do
  the insertions in sequence that the range and initializer-list constructors perform on
  the default-constructed skiplist, along a strictly increasing map \<open>f\<close> of positions.
\<close>

theorem keys_immutable:
  "map key (cont (init_internally s)) = 0 # - 1 # map key (cont s) \<and>
   map vals (cont (init_internally s)) = {#} # {#} # map vals (cont s) \<and>
   (init_internally_call s = Inr t \<longrightarrow> map key (cont t) = 0 # - 1 # map key (cont s)) \<and>
   (find_sl h s v = Some (r, s') \<longrightarrow> map key (cont s') = map key (cont s)) \<and>
   (\<exists>q. \<forall>i<length (cont s).
      (if q \<le> i then Suc i else i) < length (cont (insert_sl h d v s)) \<and>
      key (cont (insert_sl h d v s) ! (if q \<le> i then Suc i else i)) = key (cont s ! i)) \<and>
   (\<exists>f. (\<forall>i j. i < j \<longrightarrow> f i < f j) \<and>
      (\<forall>i<length (cont s).
         f i < length (cont (insert_range h s xs)) \<and>
         key (cont (insert_range h s xs) ! f i) = key (cont s ! i))) \<and>
   skiplist_range h xs = insert_range h skiplist_default xs \<and>
   skiplist_init_list h xs = skiplist_range h xs"
proof -
  have k: "map key (cont (init_internally s)) = 0 # - 1 # map key (cont s)"
    by (cases "cont s")
      (simp_all add: init_internally_def list_insert_def list_begin_def Let_def shift_node_def
        map_update comp_def)
  have v: "map vals (cont (init_internally s)) = {#} # {#} # map vals (cont s)"
    by (cases "cont s")
      (simp_all add: init_internally_def list_insert_def list_begin_def Let_def shift_node_def
        map_update comp_def)
  have c: "init_internally_call s = Inr t \<longrightarrow> map key (cont t) = 0 # - 1 # map key (cont s)"
    using k by (auto simp: init_internally_call_eq split: if_splits)
  have f: "find_sl h s v = Some (r, s') \<longrightarrow> map key (cont s') = map key (cont s)"
    using find_sl_state[of h s v r s'] by auto
  note i = insert_sl_keeps_keys[of s h d v] and r = insert_range_keeps_keys[of s h xs]
  have b: "skiplist_range h xs = insert_range h skiplist_default xs"
    "skiplist_init_list h xs = skiplist_range h xs"
    by (simp_all add: skiplist_range_def skiplist_init_list_def)
  from k v c f i r b show ?thesis by (intro conjI)
qed

theorem keys_immutable_witness:
  "map key (cont (init_internally scenario)) = [0, - 1, 0, 10, 15, 20, - 1] \<and>
   (\<exists>r s'. find_sl (\<lambda>v. v) scenario 20 = Some (r, s') \<and>
      map key (cont s') = [0, 10, 15, 20, - 1]) \<and>
   (\<exists>q :: nat. key (cont (insert_sl (\<lambda>v. v) 0 17 scenario) ! (if q \<le> 3 then 4 else 3)) = 20 \<and>
        key (cont (insert_sl (\<lambda>v. v) 0 17 scenario) ! (if q \<le> 0 then 1 else 0)) = 0) \<and>
   (\<exists>f :: nat \<Rightarrow> nat. f 0 < f 3 \<and>
        key (cont (insert_range (\<lambda>v. v) scenario [(0, 17), (1, 12)]) ! f 0) = 0 \<and>
        key (cont (insert_range (\<lambda>v. v) scenario [(0, 17), (1, 12)]) ! f 3) = 20)"
proof -
  note t1 = keys_immutable[where s = scenario and h = "\<lambda>v. v" and v = 20 and r = "Inr End"
      and s' = scenario and t = scenario and d = 0 and xs = "[]"]
  note t2 = keys_immutable[where s = scenario and h = "\<lambda>v. v" and v = 17 and r = "Inr End"
      and s' = scenario and t = scenario and d = 0 and xs = "[(0, 17), (1, 12)]"]
  have len: "length (cont scenario) = 5" and k3: "key (cont scenario ! 3) = 20"
    and k0: "key (cont scenario ! 0) = 0"
    and keys: "map key (cont scenario) = [0, 10, 15, 20, - 1]"
    by (simp_all add: scenario_def)
  from t1 keys have a: "map key (cont (init_internally scenario)) = [0, - 1, 0, 10, 15, 20, - 1]"
    by simp
  from t1 find_sl_scenario_20 keys
  have b: "\<exists>r s'. find_sl (\<lambda>v. v) scenario 20 = Some (r, s') \<and>
      map key (cont s') = [0, 10, 15, 20, - 1]"
    by simp
  from t2 have "\<exists>q. \<forall>i<length (cont scenario).
      (if q \<le> i then Suc i else i) < length (cont (insert_sl (\<lambda>v. v) 0 17 scenario)) \<and>
      key (cont (insert_sl (\<lambda>v. v) 0 17 scenario) ! (if q \<le> i then Suc i else i)) =
        key (cont scenario ! i)"
    by (elim conjE)
  then obtain q where "\<forall>i<length (cont scenario).
      (if q \<le> i then Suc i else i) < length (cont (insert_sl (\<lambda>v. v) 0 17 scenario)) \<and>
      key (cont (insert_sl (\<lambda>v. v) 0 17 scenario) ! (if q \<le> i then Suc i else i)) =
        key (cont scenario ! i)" ..
  then have qq: "\<And>i. i < 5 \<Longrightarrow>
      key (cont (insert_sl (\<lambda>v. v) 0 17 scenario) ! (if q \<le> i then Suc i else i)) =
        key (cont scenario ! i)"
    by (simp add: len)
  from qq[of 3] qq[of 0]
  have "key (cont (insert_sl (\<lambda>v. v) 0 17 scenario) ! (if q \<le> 3 then 4 else 3)) = 20 \<and>
        key (cont (insert_sl (\<lambda>v. v) 0 17 scenario) ! (if q \<le> 0 then 1 else 0)) = 0"
    by (auto simp: k3 k0 split: if_splits)
  then have c: "\<exists>q :: nat. key (cont (insert_sl (\<lambda>v. v) 0 17 scenario) ! (if q \<le> 3 then 4 else 3)) = 20 \<and>
        key (cont (insert_sl (\<lambda>v. v) 0 17 scenario) ! (if q \<le> 0 then 1 else 0)) = 0"
    by (rule exI)
  from t2 have "\<exists>f. (\<forall>i j :: nat. i < j \<longrightarrow> f i < f j) \<and>
    (\<forall>i<length (cont scenario).
         f i < length (cont (insert_range (\<lambda>v. v) scenario [(0, 17), (1, 12)])) \<and>
         key (cont (insert_range (\<lambda>v. v) scenario [(0, 17), (1, 12)]) ! f i) =
           key (cont scenario ! i))"
    by (elim conjE)
  then obtain f where "(\<forall>i j :: nat. i < j \<longrightarrow> f i < f j) \<and>
    (\<forall>i<length (cont scenario).
         f i < length (cont (insert_range (\<lambda>v. v) scenario [(0, 17), (1, 12)])) \<and>
         key (cont (insert_range (\<lambda>v. v) scenario [(0, 17), (1, 12)]) ! f i) =
           key (cont scenario ! i))" ..
  then have f: "\<forall>i j :: nat. i < j \<longrightarrow> f i < f j"
    "\<forall>i<length (cont scenario).
         f i < length (cont (insert_range (\<lambda>v. v) scenario [(0, 17), (1, 12)])) \<and>
         key (cont (insert_range (\<lambda>v. v) scenario [(0, 17), (1, 12)]) ! f i) =
           key (cont scenario ! i)"
    by simp_all
  from f(1) have "f 0 < f 3" by simp
  moreover from f(2) have ff: "\<And>i. i < 5 \<Longrightarrow>
      key (cont (insert_range (\<lambda>v. v) scenario [(0, 17), (1, 12)]) ! f i) = key (cont scenario ! i)"
    by (simp add: len)
  from ff[of 0] ff[of 3] have
    "key (cont (insert_range (\<lambda>v. v) scenario [(0, 17), (1, 12)]) ! f 0) = key (cont scenario ! 0)"
    "key (cont (insert_range (\<lambda>v. v) scenario [(0, 17), (1, 12)]) ! f 3) = key (cont scenario ! 3)"
    by simp_all
  ultimately have fx: "f 0 < f 3 \<and>
        key (cont (insert_range (\<lambda>v. v) scenario [(0, 17), (1, 12)]) ! f 0) = 0 \<and>
        key (cont (insert_range (\<lambda>v. v) scenario [(0, 17), (1, 12)]) ! f 3) = 20"
    by (simp add: k0 k3)
  have d: "\<exists>f :: nat \<Rightarrow> nat. f 0 < f 3 \<and>
        key (cont (insert_range (\<lambda>v. v) scenario [(0, 17), (1, 12)]) ! f 0) = 0 \<and>
        key (cont (insert_range (\<lambda>v. v) scenario [(0, 17), (1, 12)]) ! f 3) = 20"
    by (rule exI[of _ f]) (rule fx)
  from a b c d show ?thesis by (intro conjI)
qed

end
